theory Spec2Isabelle
  imports Main
begin

section \<open>Shared types (cache.go)\<close>

text \<open>
  Instants (\<open>time.Time\<close>) and durations (\<open>time.Duration\<close>) are integers counted in
  the same unit; \<open>t.Add(d)\<close> is \<open>t + d\<close> and \<open>t.Before(u)\<close> is \<open>t < u\<close>.
\<close>

text \<open>
  Modelled from the spec: the \<open>Clock\<close> type of the repository is not among the sources.
  The spec gives it one operation, \<open>Now()\<close>, that returns the current instant, and lets a
  test swap the clock. Every function of the model that calls \<open>c.clock.Now()\<close> takes the
  reading as an argument, one reading for each critical section; a call of \<open>time.Now()\<close>,
  the wall clock, is a separate argument.
\<close>

type_synonym time = int
type_synonym duration = int

text \<open>
  Go errors. \<open>KeyNotFoundError\<close> is the sentinel of cache.go; \<open>Errorf\<close> is any other
  error, identified by its message; \<open>Wrapf\<close> is an error that wraps another one, so
  that \<open>errors.Is\<close> follows the chain.
\<close>

datatype error = KeyNotFoundError | Errorf string | Wrapf string error

fun errors_Is_KeyNotFoundError :: "error \<Rightarrow> bool" where
  "errors_Is_KeyNotFoundError KeyNotFoundError = True"
| "errors_Is_KeyNotFoundError (Errorf m) = False"
| "errors_Is_KeyNotFoundError (Wrapf m e) = errors_Is_KeyNotFoundError e"

text \<open>
  What one call of the loader does: it returns the triple \<open>(V, *time.Duration, error)\<close>
  or it panics; the panic value is kept as the text that \<open>%v\<close> prints for it.
\<close>

datatype 'v loader_result =
    LoaderReturns 'v "duration option" "error option"
  | LoaderPanics string

text \<open>
  The configuration part of \<open>baseCache\<close>. The hooks that return a value are functions;
  a hook that returns \<open>(V, error)\<close> returns \<open>Inl\<close> the error or \<open>Inr\<close> the value.
  The three observation callbacks return nothing: the record says whether each is set
  (\<open>!= nil\<close>), and every call made to \<open>evictedFunc\<close> and \<open>addedFunc\<close> is appended to a
  trace kept in the cache state. Callbacks are taken to return normally. The loader
  receives the caller's context, of an abstract type \<open>'ctx\<close>.
\<close>

record ('k, 'v, 'ctx) baseCache =
  cache_size :: int
  loaderExpireFunc :: "('ctx \<Rightarrow> 'k \<Rightarrow> 'v loader_result) option"
  evictedFunc :: bool
  purgeVisitorFunc :: bool
  addedFunc :: bool
  deserializeFunc :: "('k \<Rightarrow> 'v \<Rightarrow> error + 'v) option"
  serializeFunc :: "('k \<Rightarrow> 'v \<Rightarrow> error + 'v) option"
  expiration :: "duration option"

text \<open>
  Modelled from the spec: the \<open>stats\<close> type of the repository is not among the sources.
  The spec gives it two monotonic counters, hits and misses, each incremented by one.
\<close>

record stats =
  hitCount :: nat
  missCount :: nat

definition IncrHitCount :: "stats \<Rightarrow> stats" where
  "IncrHitCount st = st\<lparr>hitCount := hitCount st + 1\<rparr>"

definition IncrMissCount :: "stats \<Rightarrow> stats" where
  "IncrMissCount st = st\<lparr>missCount := missCount st + 1\<rparr>"

text \<open>
  \<open>lruItem\<close> and \<open>arcItem\<close> have the same fields. The \<open>clock\<close> field points to the clock
  of the cache; the model passes the reading of that clock to the functions that read it.
\<close>

record ('k, 'v) cacheItem =
  item_key :: 'k
  item_value :: 'v
  item_expiration :: "time option"

type_synonym ('k, 'v) lruItem = "('k, 'v) cacheItem"
type_synonym ('k, 'v) arcItem = "('k, 'v) cacheItem"

text \<open>
  \<open>IsExpired(now)\<close>, the same text for \<open>lruItem\<close> and \<open>arcItem\<close>: \<open>clock\<close> is what
  \<open>it.clock.Now()\<close> returns, read only when the argument \<open>now\<close> is nil (\<open>None\<close>).
\<close>

definition IsExpired :: "time \<Rightarrow> ('k, 'v) cacheItem \<Rightarrow> time option \<Rightarrow> bool" where
  "IsExpired clock it now =
     (case item_expiration it of
        None \<Rightarrow> False
      | Some e \<Rightarrow> e < (case now of None \<Rightarrow> clock | Some t \<Rightarrow> t))"

section \<open>The ARC engine\<close>

subsection \<open>arcList\<close>

text \<open>
  An \<open>arcList\<close> is a linked list of keys with an index from key to element. Every method
  changes both together, so the list is without duplicates and the model keeps the list
  alone, front first. \<open>RemoveTail\<close> on an empty list dereferences nil: \<open>None\<close>.
\<close>

definition arcList_Has :: "'k \<Rightarrow> 'k list \<Rightarrow> bool" where
  "arcList_Has k al = (k \<in> set al)"

definition arcList_PushFront :: "'k \<Rightarrow> 'k list \<Rightarrow> 'k list" where
  "arcList_PushFront k al = (if k \<in> set al then k # remove1 k al else k # al)"

definition arcList_MoveToFront :: "'k \<Rightarrow> 'k list \<Rightarrow> 'k list" where
  "arcList_MoveToFront k al = k # remove1 k al"

definition arcList_Remove :: "'k \<Rightarrow> 'k list \<Rightarrow> 'k list" where
  "arcList_Remove k al = remove1 k al"

definition arcList_RemoveTail :: "'k list \<Rightarrow> ('k \<times> 'k list) option" where
  "arcList_RemoveTail al = (if al = [] then None else Some (last al, butlast al))"

definition arcList_Len :: "'k list \<Rightarrow> int" where
  "arcList_Len al = int (length al)"

subsection \<open>State and operations\<close>

record ('k, 'v) ARC =
  items :: "'k \<rightharpoonup> ('k, 'v) arcItem"
  part :: int
  t1 :: "'k list"
  t2 :: "'k list"
  b1 :: "'k list"
  b2 :: "'k list"
  arc_stats :: stats
  evicted_calls :: "('k \<times> 'v) list"
  added_calls :: "('k \<times> 'v) list"

definition newARC :: "('k, 'v) ARC" where
  "newARC = \<lparr>items = Map.empty, part = 0, t1 = [], t2 = [], b1 = [], b2 = [],
     arc_stats = \<lparr>hitCount = 0, missCount = 0\<rparr>, evicted_calls = [], added_calls = []\<rparr>"

definition isCacheFull :: "('k, 'v, 'ctx) baseCache \<Rightarrow> ('k, 'v) ARC \<Rightarrow> bool" where
  "isCacheFull cfg c = (arcList_Len (t1 c) + arcList_Len (t2 c) = cache_size cfg)"

definition setPart :: "('k, 'v, 'ctx) baseCache \<Rightarrow> ('k, 'v) ARC \<Rightarrow> int \<Rightarrow> ('k, 'v) ARC" where
  "setPart cfg c p = (if isCacheFull cfg c then c\<lparr>part := p\<rparr> else c)"

text \<open>The call \<open>c.evictedFunc(k, v)\<close> behind its nil check.\<close>

definition call_evictedFunc ::
  "('k, 'v, 'ctx) baseCache \<Rightarrow> 'k \<Rightarrow> 'v \<Rightarrow> ('k, 'v) ARC \<Rightarrow> ('k, 'v) ARC" where
  "call_evictedFunc cfg k v c =
     (if evictedFunc cfg then c\<lparr>evicted_calls := evicted_calls c @ [(k, v)]\<rparr> else c)"

text \<open>
  The block that \<open>replace\<close> and \<open>set\<close> both end an eviction with:
  \<open>item, ok := c.items[old]; if ok { delete(c.items, old); evictedFunc(item.key, item.value) }\<close>.
\<close>

definition drop_item ::
  "('k, 'v, 'ctx) baseCache \<Rightarrow> 'k \<Rightarrow> ('k, 'v) ARC \<Rightarrow> ('k, 'v) ARC" where
  "drop_item cfg old c =
     (case items c old of
        None \<Rightarrow> c
      | Some item \<Rightarrow>
          call_evictedFunc cfg (item_key item) (item_value item)
            (c\<lparr>items := (items c)(old := None)\<rparr>))"

text \<open>The three victim branches of \<open>replace\<close>: tail of T1 to B1, tail of T2 to B2.\<close>

definition evict_t1 :: "('k, 'v) ARC \<Rightarrow> ('k \<times> ('k, 'v) ARC) option" where
  "evict_t1 c =
     (case arcList_RemoveTail (t1 c) of
        None \<Rightarrow> None
      | Some (old, l) \<Rightarrow> Some (old, c\<lparr>t1 := l, b1 := arcList_PushFront old (b1 c)\<rparr>))"

definition evict_t2 :: "('k, 'v) ARC \<Rightarrow> ('k \<times> ('k, 'v) ARC) option" where
  "evict_t2 c =
     (case arcList_RemoveTail (t2 c) of
        None \<Rightarrow> None
      | Some (old, l) \<Rightarrow> Some (old, c\<lparr>t2 := l, b2 := arcList_PushFront old (b2 c)\<rparr>))"

definition replace ::
  "('k, 'v, 'ctx) baseCache \<Rightarrow> ('k, 'v) ARC \<Rightarrow> 'k \<Rightarrow> ('k, 'v) ARC option" where
  "replace cfg c key =
     (if \<not> isCacheFull cfg c then Some c
      else
        (case (if arcList_Len (t1 c) > 0 \<and>
                  ((arcList_Has key (b2 c) \<and> arcList_Len (t1 c) = part c) \<or>
                   arcList_Len (t1 c) > part c)
               then evict_t1 c
               else if arcList_Len (t2 c) > 0 then evict_t2 c
               else evict_t1 c) of
           None \<Rightarrow> None
         | Some (old, c') \<Rightarrow> Some (drop_item cfg old c')))"

text \<open>The deferred call of \<open>addedFunc\<close> in \<open>set\<close>, run at every return after the defer.\<close>

definition call_addedFunc ::
  "('k, 'v, 'ctx) baseCache \<Rightarrow> 'k \<Rightarrow> 'v \<Rightarrow> ('k, 'v) ARC \<Rightarrow> ('k, 'v) ARC" where
  "call_addedFunc cfg k v c =
     (if addedFunc cfg then c\<lparr>added_calls := added_calls c @ [(k, v)]\<rparr> else c)"

text \<open>The ghost trimming of the brand-new-key case of \<open>set\<close> (the last if/else).\<close>

definition set_make_room ::
  "('k, 'v, 'ctx) baseCache \<Rightarrow> ('k, 'v) ARC \<Rightarrow> 'k \<Rightarrow> ('k, 'v) ARC option" where
  "set_make_room cfg c key =
     (if isCacheFull cfg c \<and> arcList_Len (t1 c) + arcList_Len (b1 c) = cache_size cfg then
        (if arcList_Len (t1 c) < cache_size cfg then
           (case arcList_RemoveTail (b1 c) of
              None \<Rightarrow> None
            | Some (_, l) \<Rightarrow> replace cfg (c\<lparr>b1 := l\<rparr>) key)
         else
           (case arcList_RemoveTail (t1 c) of
              None \<Rightarrow> None
            | Some (pop, l) \<Rightarrow> Some (drop_item cfg pop (c\<lparr>t1 := l\<rparr>))))
      else
        (let total = arcList_Len (t1 c) + arcList_Len (b1 c) +
                     arcList_Len (t2 c) + arcList_Len (b2 c)
         in if total \<ge> cache_size cfg then
              (case (if total = 2 * cache_size cfg then
                       (if arcList_Len (b2 c) > 0 then
                          map_option (\<lambda>(_, l). c\<lparr>b2 := l\<rparr>) (arcList_RemoveTail (b2 c))
                        else
                          map_option (\<lambda>(_, l). c\<lparr>b1 := l\<rparr>) (arcList_RemoveTail (b1 c)))
                     else Some c) of
                 None \<Rightarrow> None
               | Some c' \<Rightarrow> replace cfg c' key)
            else Some c))"

text \<open>
  \<open>set\<close> after the serialize hook, first half: the entry is updated in place or created,
  and gets the default expiration when one is configured. \<open>now\<close> is the reading of
  \<open>c.clock.Now()\<close>.
\<close>

definition set_entry ::
  "('k, 'v, 'ctx) baseCache \<Rightarrow> time \<Rightarrow> ('k, 'v) ARC \<Rightarrow> 'k \<Rightarrow> 'v \<Rightarrow> ('k, 'v) ARC" where
  "set_entry cfg now c key v =
     (let item0 = (case items c key of
                     Some it \<Rightarrow> it\<lparr>item_value := v\<rparr>
                   | None \<Rightarrow> \<lparr>item_key = key, item_value = v, item_expiration = None\<rparr>);
          item = (case expiration cfg of
                    None \<Rightarrow> item0
                  | Some d \<Rightarrow> item0\<lparr>item_expiration := Some (now + d)\<rparr>)
      in c\<lparr>items := (items c)(key \<mapsto> item)\<rparr>)"

text \<open>
  Second half: the key is placed in the lists. The four cases are those of the source,
  in its order: already live, ghost in B1, ghost in B2, brand new. \<open>None\<close> is a panic.
\<close>

definition set_place ::
  "('k, 'v, 'ctx) baseCache \<Rightarrow> ('k, 'v) ARC \<Rightarrow> 'k \<Rightarrow> 'v \<Rightarrow> ('k, 'v) ARC option" where
  "set_place cfg c1 key v =
     (if arcList_Has key (t1 c1) \<or> arcList_Has key (t2 c1) then
        Some (call_addedFunc cfg key v c1)
      else if arcList_Has key (b1 c1) then
        (case replace cfg
                (setPart cfg c1
                   (min (cache_size cfg)
                      (part c1 + max (arcList_Len (b2 c1) div arcList_Len (b1 c1)) 1)))
                key of
           None \<Rightarrow> None
         | Some c2 \<Rightarrow>
             Some (call_addedFunc cfg key v
                     (c2\<lparr>b1 := arcList_Remove key (b1 c2),
                         t2 := arcList_PushFront key (t2 c2)\<rparr>)))
      else if arcList_Has key (b2 c1) then
        (case replace cfg
                (setPart cfg c1
                   (max 0
                      (part c1 - max (arcList_Len (b1 c1) div arcList_Len (b2 c1)) 1)))
                key of
           None \<Rightarrow> None
         | Some c2 \<Rightarrow>
             Some (call_addedFunc cfg key v
                     (c2\<lparr>b2 := arcList_Remove key (b2 c2),
                         t2 := arcList_PushFront key (t2 c2)\<rparr>)))
      else
        (case set_make_room cfg c1 key of
           None \<Rightarrow> None
         | Some c3 \<Rightarrow>
             Some (call_addedFunc cfg key v
                     (c3\<lparr>t1 := arcList_PushFront key (t1 c3)\<rparr>))))"

text \<open>
  \<open>set\<close> returns the item pointer and an error. The item is the one stored under the
  key, so the model returns the state and the error only. A serialize error returns
  before anything is changed.
\<close>

definition ARC_set ::
  "('k, 'v, 'ctx) baseCache \<Rightarrow> time \<Rightarrow> ('k, 'v) ARC \<Rightarrow> 'k \<Rightarrow> 'v \<Rightarrow>
     (('k, 'v) ARC \<times> error option) option" where
  "ARC_set cfg now c key value0 =
     (case (case serializeFunc cfg of None \<Rightarrow> Inr value0 | Some f \<Rightarrow> f key value0) of
        Inl err \<Rightarrow> Some (c, Some err)
      | Inr v \<Rightarrow> map_option (\<lambda>c'. (c', None)) (set_place cfg (set_entry cfg now c key v) key v))"

text \<open>\<open>item.expiration = &t\<close> on the item that \<open>set\<close> returned, the one stored under the key.\<close>

definition ARC_set_expiration :: "'k \<Rightarrow> time \<Rightarrow> ('k, 'v) ARC \<Rightarrow> ('k, 'v) ARC" where
  "ARC_set_expiration key t c =
     (case items c key of
        None \<Rightarrow> c
      | Some it \<Rightarrow> c\<lparr>items := (items c)(key \<mapsto> it\<lparr>item_expiration := Some t\<rparr>)\<rparr>)"

definition ARC_Set ::
  "('k, 'v, 'ctx) baseCache \<Rightarrow> time \<Rightarrow> ('k, 'v) ARC \<Rightarrow> 'k \<Rightarrow> 'v \<Rightarrow>
     (('k, 'v) ARC \<times> error option) option" where
  "ARC_Set cfg now c key v = ARC_set cfg now c key v"

definition ARC_SetWithExpire ::
  "('k, 'v, 'ctx) baseCache \<Rightarrow> time \<Rightarrow> ('k, 'v) ARC \<Rightarrow> 'k \<Rightarrow> 'v \<Rightarrow> duration \<Rightarrow>
     (('k, 'v) ARC \<times> error option) option" where
  "ARC_SetWithExpire cfg now c key v d =
     (case ARC_set cfg now c key v of
        None \<Rightarrow> None
      | Some (c', Some err) \<Rightarrow> Some (c', Some err)
      | Some (c', None) \<Rightarrow> Some (ARC_set_expiration key (now + d) c', None))"

definition ARC_count_hit :: "bool \<Rightarrow> ('k, 'v) ARC \<Rightarrow> ('k, 'v) ARC" where
  "ARC_count_hit onLoad c =
     (if \<not> onLoad then c\<lparr>arc_stats := IncrHitCount (arc_stats c)\<rparr> else c)"

definition ARC_count_miss :: "bool \<Rightarrow> ('k, 'v) ARC \<Rightarrow> ('k, 'v) ARC" where
  "ARC_count_miss onLoad c =
     (if \<not> onLoad then c\<lparr>arc_stats := IncrMissCount (arc_stats c)\<rparr> else c)"

text \<open>
  \<open>getValue\<close> is two blocks, one for T1 and one for T2, each of which either returns the
  value (\<open>Some v\<close> beside the state) or falls through (\<open>None\<close> beside the state). Reading
  \<open>item.IsExpired\<close> on a key without an entry dereferences nil: the outer \<open>None\<close>.
\<close>

definition getValue_t1 ::
  "('k, 'v, 'ctx) baseCache \<Rightarrow> time \<Rightarrow> ('k, 'v) ARC \<Rightarrow> 'k \<Rightarrow> bool \<Rightarrow>
     (('k, 'v) ARC \<times> 'v option) option" where
  "getValue_t1 cfg now c key onLoad =
     (if arcList_Has key (t1 c) then
        (let c1 = c\<lparr>t1 := arcList_Remove key (t1 c)\<rparr> in
           case items c1 key of
             None \<Rightarrow> None
           | Some item \<Rightarrow>
               if \<not> IsExpired now item None then
                 Some (ARC_count_hit onLoad (c1\<lparr>t2 := arcList_PushFront key (t2 c1)\<rparr>),
                       Some (item_value item))
               else
                 Some (call_evictedFunc cfg (item_key item) (item_value item)
                         (c1\<lparr>items := (items c1)(key := None),
                             b1 := arcList_PushFront key (b1 c1)\<rparr>), None))
      else Some (c, None))"

definition getValue_t2 ::
  "('k, 'v, 'ctx) baseCache \<Rightarrow> time \<Rightarrow> ('k, 'v) ARC \<Rightarrow> 'k \<Rightarrow> bool \<Rightarrow>
     (('k, 'v) ARC \<times> 'v option) option" where
  "getValue_t2 cfg now c key onLoad =
     (if arcList_Has key (t2 c) then
        (case items c key of
           None \<Rightarrow> None
         | Some item \<Rightarrow>
             if \<not> IsExpired now item None then
               Some (ARC_count_hit onLoad (c\<lparr>t2 := arcList_MoveToFront key (t2 c)\<rparr>),
                     Some (item_value item))
             else
               Some (call_evictedFunc cfg (item_key item) (item_value item)
                       (c\<lparr>items := (items c)(key := None),
                          t2 := arcList_Remove key (t2 c),
                          b2 := arcList_PushFront key (b2 c)\<rparr>), None))
      else Some (c, None))"

definition ARC_getValue ::
  "('k, 'v, 'ctx) baseCache \<Rightarrow> time \<Rightarrow> ('k, 'v) ARC \<Rightarrow> 'k \<Rightarrow> bool \<Rightarrow>
     (('k, 'v) ARC \<times> (error + 'v)) option" where
  "ARC_getValue cfg now c key onLoad =
     (case getValue_t1 cfg now c key onLoad of
        None \<Rightarrow> None
      | Some (c1, Some v) \<Rightarrow> Some (c1, Inr v)
      | Some (c1, None) \<Rightarrow>
          (case getValue_t2 cfg now c1 key onLoad of
             None \<Rightarrow> None
           | Some (c2, Some v) \<Rightarrow> Some (c2, Inr v)
           | Some (c2, None) \<Rightarrow> Some (ARC_count_miss onLoad c2, Inl KeyNotFoundError)))"

definition ARC_get ::
  "('k, 'v, 'ctx) baseCache \<Rightarrow> time \<Rightarrow> ('k, 'v) ARC \<Rightarrow> 'k \<Rightarrow> bool \<Rightarrow>
     (('k, 'v) ARC \<times> (error + 'v)) option" where
  "ARC_get cfg now c key onLoad =
     (case ARC_getValue cfg now c key onLoad of
        None \<Rightarrow> None
      | Some (c', Inl err) \<Rightarrow> Some (c', Inl err)
      | Some (c', Inr v) \<Rightarrow>
          (case deserializeFunc cfg of
             Some f \<Rightarrow> Some (c', f key v)
           | None \<Rightarrow> Some (c', Inr v)))"

subsection \<open>Read-through loading (cache.go)\<close>

text \<open>
  Modelled from the spec: the single-flight group (\<open>Group.Do\<close>) is not among the sources.
  By section 4.6 of the spec, when no call is pending for the key, \<open>Do\<close> runs \<open>fn\<close>; in
  wait mode the caller gets the result of \<open>fn\<close>, in no-wait mode \<open>fn\<close> runs in a detached
  task and the caller gets \<open>KeyNotFound\<close> at once. The model is sequential: no call is
  pending when \<open>Do\<close> is entered, and a detached task has run to its end before the next
  operation starts. The \<open>called\<close> flag is left out, every caller in the sources drops it.
\<close>

definition Group_Do ::
  "('s \<Rightarrow> ('s \<times> (error + 'v)) option) \<Rightarrow> bool \<Rightarrow> 's \<Rightarrow> ('s \<times> (error + 'v)) option" where
  "Group_Do fn isWait c =
     (case fn c of
        None \<Rightarrow> None
      | Some (c', r) \<Rightarrow> Some (c', if isWait then r else Inl KeyNotFoundError))"

text \<open>
  \<open>load\<close>: the function given to \<open>Do\<close> calls the loader and hands its three results to
  \<open>cb\<close>; a panic of the loader is recovered into the error \<open>loader panics: <value>\<close>. The
  \<open>recover\<close> would also catch a panic of \<open>cb\<close>; the model leaves that case a panic
  (\<open>None\<close>), and the theorems below show that \<open>cb\<close> does not panic in a reachable state.
  A nil loader is a nil call, recovered in the same way.
\<close>

definition load ::
  "('k, 'v, 'ctx) baseCache \<Rightarrow> 'ctx \<Rightarrow> 'k \<Rightarrow>
     ('v \<Rightarrow> duration option \<Rightarrow> error option \<Rightarrow> 's \<Rightarrow> ('s \<times> (error + 'v)) option) \<Rightarrow>
     bool \<Rightarrow> 's \<Rightarrow> ('s \<times> (error + 'v)) option" where
  "load cfg ctx key cb isWait c =
     Group_Do
       (\<lambda>c. case loaderExpireFunc cfg of
               None \<Rightarrow>
                 Some (c, Inl (Errorf (''loader panics: '' @
                   ''runtime error: invalid memory address or nil pointer dereference'')))
             | Some f \<Rightarrow>
                 (case f ctx key of
                    LoaderPanics r \<Rightarrow> Some (c, Inl (Errorf (''loader panics: '' @ r)))
                  | LoaderReturns v ttl e \<Rightarrow> cb v ttl e c))
       isWait c"

text \<open>The callback that \<open>ARC.getWithLoader\<close> gives to \<open>load\<close>.\<close>

definition ARC_load_cb ::
  "('k, 'v, 'ctx) baseCache \<Rightarrow> time \<Rightarrow> 'k \<Rightarrow> 'v \<Rightarrow> duration option \<Rightarrow> error option \<Rightarrow>
     ('k, 'v) ARC \<Rightarrow> (('k, 'v) ARC \<times> (error + 'v)) option" where
  "ARC_load_cb cfg now key v ttl e c =
     (case e of
        Some err \<Rightarrow> Some (c, Inl err)
      | None \<Rightarrow>
          (case ARC_set cfg now c key v of
             None \<Rightarrow> None
           | Some (c', Some err) \<Rightarrow> Some (c', Inl err)
           | Some (c', None) \<Rightarrow>
               Some (case ttl of
                       None \<Rightarrow> c'
                     | Some d \<Rightarrow> ARC_set_expiration key (now + d) c', Inr v)))"

definition ARC_getWithLoader ::
  "('k, 'v, 'ctx) baseCache \<Rightarrow> time \<Rightarrow> ('k, 'v) ARC \<Rightarrow> 'ctx \<Rightarrow> 'k \<Rightarrow> bool \<Rightarrow>
     (('k, 'v) ARC \<times> (error + 'v)) option" where
  "ARC_getWithLoader cfg now c ctx key isWait =
     (case loaderExpireFunc cfg of
        None \<Rightarrow> Some (c, Inl KeyNotFoundError)
      | Some _ \<Rightarrow> load cfg ctx key (ARC_load_cb cfg now key) isWait c)"

text \<open>
  \<open>now\<close> is the clock reading during the lookup, \<open>now'\<close> the reading when the loaded value
  is inserted. \<open>Get(k)\<close> is \<open>GetWithContext(context.Background(), k)\<close> and
  \<open>GetIFPresent(k)\<close> is \<open>GetIFPresentWithContext(context.Background(), k)\<close>.
\<close>

definition ARC_GetWithContext ::
  "('k, 'v, 'ctx) baseCache \<Rightarrow> time \<Rightarrow> time \<Rightarrow> ('k, 'v) ARC \<Rightarrow> 'ctx \<Rightarrow> 'k \<Rightarrow>
     (('k, 'v) ARC \<times> (error + 'v)) option" where
  "ARC_GetWithContext cfg now now' c ctx key =
     (case ARC_get cfg now c key False of
        None \<Rightarrow> None
      | Some (c', Inl err) \<Rightarrow>
          if errors_Is_KeyNotFoundError err then ARC_getWithLoader cfg now' c' ctx key True
          else Some (c', Inl err)
      | Some (c', Inr v) \<Rightarrow> Some (c', Inr v))"

definition ARC_GetIFPresentWithContext ::
  "('k, 'v, 'ctx) baseCache \<Rightarrow> time \<Rightarrow> time \<Rightarrow> ('k, 'v) ARC \<Rightarrow> 'ctx \<Rightarrow> 'k \<Rightarrow>
     (('k, 'v) ARC \<times> (error + 'v)) option" where
  "ARC_GetIFPresentWithContext cfg now now' c ctx key =
     (case ARC_get cfg now c key False of
        None \<Rightarrow> None
      | Some (c', Inl err) \<Rightarrow>
          if errors_Is_KeyNotFoundError err then ARC_getWithLoader cfg now' c' ctx key False
          else Some (c', Inl err)
      | Some (c', Inr v) \<Rightarrow> Some (c', Inr v))"

subsection \<open>Has, Remove, snapshots, Purge\<close>

text \<open>
  \<open>Has\<close>, \<open>GetALL\<close>, \<open>Keys\<close> and \<open>Len\<close> read \<open>time.Now()\<close>, the wall clock, and pass
  it to \<open>has\<close>: \<open>wall\<close> is that reading, \<open>clock\<close> the reading of the cache's clock.
\<close>

definition ARC_has :: "time \<Rightarrow> ('k, 'v) ARC \<Rightarrow> 'k \<Rightarrow> time option \<Rightarrow> bool" where
  "ARC_has clock c key now =
     (case items c key of
        None \<Rightarrow> False
      | Some item \<Rightarrow> \<not> IsExpired clock item now)"

definition ARC_Has :: "time \<Rightarrow> time \<Rightarrow> ('k, 'v) ARC \<Rightarrow> 'k \<Rightarrow> bool" where
  "ARC_Has clock wall c key = ARC_has clock c key (Some wall)"

definition ARC_remove ::
  "('k, 'v, 'ctx) baseCache \<Rightarrow> ('k, 'v) ARC \<Rightarrow> 'k \<Rightarrow> (('k, 'v) ARC \<times> bool) option" where
  "ARC_remove cfg c key =
     (if arcList_Has key (t1 c) then
        (let c1 = c\<lparr>t1 := arcList_Remove key (t1 c)\<rparr>;
             item = items c1 key;
             c2 = c1\<lparr>items := (items c1)(key := None),
                     b1 := arcList_PushFront key (b1 c1)\<rparr>
         in if evictedFunc cfg then
              (case item of
                 None \<Rightarrow> None
               | Some it \<Rightarrow> Some (call_evictedFunc cfg key (item_value it) c2, True))
            else Some (c2, True))
      else if arcList_Has key (t2 c) then
        (let c1 = c\<lparr>t2 := arcList_Remove key (t2 c)\<rparr>;
             item = items c1 key;
             c2 = c1\<lparr>items := (items c1)(key := None),
                     b2 := arcList_PushFront key (b2 c1)\<rparr>
         in if evictedFunc cfg then
              (case item of
                 None \<Rightarrow> None
               | Some it \<Rightarrow> Some (call_evictedFunc cfg key (item_value it) c2, True))
            else Some (c2, True))
      else Some (c, False))"

definition ARC_Remove ::
  "('k, 'v, 'ctx) baseCache \<Rightarrow> ('k, 'v) ARC \<Rightarrow> 'k \<Rightarrow> (('k, 'v) ARC \<times> bool) option" where
  "ARC_Remove cfg c key = ARC_remove cfg c key"

text \<open>
  The snapshots range over the entries in an order that Go leaves open: \<open>Keys\<close> is the
  set of the keys it returns, \<open>GetALL\<close> the map, \<open>Len\<close> the count.
\<close>

definition ARC_GetALL :: "time \<Rightarrow> time \<Rightarrow> ('k, 'v) ARC \<Rightarrow> bool \<Rightarrow> ('k \<rightharpoonup> 'v)" where
  "ARC_GetALL clock wall c checkExpired =
     (\<lambda>k. case items c k of
            None \<Rightarrow> None
          | Some item \<Rightarrow>
              if \<not> checkExpired \<or> ARC_has clock c k (Some wall) then Some (item_value item)
              else None)"

definition ARC_Keys :: "time \<Rightarrow> time \<Rightarrow> ('k, 'v) ARC \<Rightarrow> bool \<Rightarrow> 'k set" where
  "ARC_Keys clock wall c checkExpired =
     {k \<in> dom (items c). \<not> checkExpired \<or> ARC_has clock c k (Some wall)}"

definition ARC_Len :: "time \<Rightarrow> time \<Rightarrow> ('k, 'v) ARC \<Rightarrow> bool \<Rightarrow> int" where
  "ARC_Len clock wall c checkExpired =
     (if \<not> checkExpired then int (card (dom (items c)))
      else int (card {k \<in> dom (items c). ARC_has clock c k (Some wall)}))"

text \<open>
  \<open>Purge\<close> visits the entries with \<open>purgeVisitorFunc\<close>, which observes only and is not
  traced, and then runs \<open>init\<close>: the entries and the four lists are new, \<open>part\<close> and the
  counters stay.
\<close>

definition ARC_Purge :: "('k, 'v, 'ctx) baseCache \<Rightarrow> ('k, 'v) ARC \<Rightarrow> ('k, 'v) ARC" where
  "ARC_Purge cfg c = c\<lparr>items := Map.empty, t1 := [], t2 := [], b1 := [], b2 := []\<rparr>"

subsection \<open>Runs of public operations\<close>

text \<open>
  The public operations that change the state; \<open>Get\<close> and \<open>GetIFPresent\<close> carry the
  context given to the loader. \<open>Has\<close>, \<open>Keys\<close>, \<open>GetALL\<close> and \<open>Len\<close> change nothing and
  are left out. A run is a list of calls, each with the two clock readings it meets: the
  reading during the lookup or the write, and the reading when a loaded value is
  inserted.
\<close>

datatype ('k, 'v, 'ctx) arc_op =
    OpSet 'k 'v
  | OpSetWithExpire 'k 'v duration
  | OpGet 'ctx 'k
  | OpGetIFPresent 'ctx 'k
  | OpRemove 'k
  | OpPurge

definition ARC_step ::
  "('k, 'v, 'ctx) baseCache \<Rightarrow> time \<Rightarrow> time \<Rightarrow> ('k, 'v) ARC \<Rightarrow> ('k, 'v, 'ctx) arc_op \<Rightarrow>
     ('k, 'v) ARC option" where
  "ARC_step cfg now now' c op =
     (case op of
        OpSet k v \<Rightarrow> map_option fst (ARC_Set cfg now c k v)
      | OpSetWithExpire k v d \<Rightarrow> map_option fst (ARC_SetWithExpire cfg now c k v d)
      | OpGet ctx k \<Rightarrow> map_option fst (ARC_GetWithContext cfg now now' c ctx k)
      | OpGetIFPresent ctx k \<Rightarrow> map_option fst (ARC_GetIFPresentWithContext cfg now now' c ctx k)
      | OpRemove k \<Rightarrow> map_option fst (ARC_Remove cfg c k)
      | OpPurge \<Rightarrow> Some (ARC_Purge cfg c))"

fun ARC_run ::
  "('k, 'v, 'ctx) baseCache \<Rightarrow> ('k, 'v) ARC \<Rightarrow> (time \<times> time \<times> ('k, 'v, 'ctx) arc_op) list \<Rightarrow>
     ('k, 'v) ARC option" where
  "ARC_run cfg c [] = Some c"
| "ARC_run cfg c ((now, now', op) # ops) =
     (case ARC_step cfg now now' c op of
        None \<Rightarrow> None
      | Some c' \<Rightarrow> ARC_run cfg c' ops)"

text \<open>
  A step takes a live entry out without putting one in: \<open>Remove\<close> of a key of T1 or
  T2, or a read that finds the entry expired at the clock reading \<open>now\<close>.
\<close>

definition expired_entry :: "time \<Rightarrow> ('k, 'v) ARC \<Rightarrow> 'k \<Rightarrow> bool" where
  "expired_entry now c key =
     (case items c key of None \<Rightarrow> False | Some it \<Rightarrow> IsExpired now it None)"

definition ARC_takes_out :: "time \<Rightarrow> ('k, 'v) ARC \<Rightarrow> ('k, 'v, 'ctx) arc_op \<Rightarrow> bool" where
  "ARC_takes_out now c op =
     (case op of
        OpRemove k \<Rightarrow> k \<in> set (t1 c) \<or> k \<in> set (t2 c)
      | OpGet ctx k \<Rightarrow> expired_entry now c k
      | OpGetIFPresent ctx k \<Rightarrow> expired_entry now c k
      | _ \<Rightarrow> False)"

text \<open>A run in which no step takes a live entry out.\<close>

fun ARC_run_keeps ::
  "('k, 'v, 'ctx) baseCache \<Rightarrow> ('k, 'v) ARC \<Rightarrow> (time \<times> time \<times> ('k, 'v, 'ctx) arc_op) list \<Rightarrow>
     bool" where
  "ARC_run_keeps cfg c [] = True"
| "ARC_run_keeps cfg c ((now, now', op) # ops) =
     (\<not> ARC_takes_out now c op \<and>
      (case ARC_step cfg now now' c op of
         None \<Rightarrow> False
       | Some c' \<Rightarrow> ARC_run_keeps cfg c' ops))"

section \<open>The LRU engine (lru.go)\<close>

text \<open>
  \<open>evictList\<close> is the recency list, front first; each element holds its \<open>lruItem\<close>.
  \<open>items\<close> maps a key to its element of the list and is changed together with the
  list everywhere (\<open>init\<close>, \<open>set\<close>, \<open>removeElement\<close>), so it is the index of the list by
  key: the model keeps the list and reads \<open>c.items[key]\<close> off it.
\<close>

record ('k, 'v) LRUCache =
  evictList :: "('k, 'v) lruItem list"
  lru_stats :: stats
  lru_evicted_calls :: "('k \<times> 'v) list"
  lru_added_calls :: "('k \<times> 'v) list"

definition newLRUCache :: "('k, 'v) LRUCache" where
  "newLRUCache = \<lparr>evictList = [], lru_stats = \<lparr>hitCount = 0, missCount = 0\<rparr>,
     lru_evicted_calls = [], lru_added_calls = []\<rparr>"

text \<open>\<open>c.items[key]\<close>: the item of the element stored under the key, if any.\<close>

definition LRUCache_items :: "('k, 'v) LRUCache \<Rightarrow> 'k \<Rightarrow> ('k, 'v) lruItem option" where
  "LRUCache_items c key = find (\<lambda>it. item_key it = key) (evictList c)"

text \<open>
  \<open>removeElement(e)\<close> takes the element out of the list and its key out of the index,
  then calls \<open>evictedFunc\<close> if set. A key has one element, so both removals are the
  removal of what the list holds under that key.
\<close>

definition LRUCache_removeElement ::
  "('k, 'v, 'ctx) baseCache \<Rightarrow> ('k, 'v) lruItem \<Rightarrow> ('k, 'v) LRUCache \<Rightarrow> ('k, 'v) LRUCache" where
  "LRUCache_removeElement cfg e c =
     (let c1 = c\<lparr>evictList := filter (\<lambda>it. item_key it \<noteq> item_key e) (evictList c)\<rparr>
      in if evictedFunc cfg
         then c1\<lparr>lru_evicted_calls := lru_evicted_calls c1 @ [(item_key e, item_value e)]\<rparr>
         else c1)"

text \<open>\<open>evict(count)\<close>: the loop removes the back of the list \<open>count\<close> times, or until it is empty.\<close>

fun LRUCache_evict ::
  "('k, 'v, 'ctx) baseCache \<Rightarrow> nat \<Rightarrow> ('k, 'v) LRUCache \<Rightarrow> ('k, 'v) LRUCache" where
  "LRUCache_evict cfg 0 c = c"
| "LRUCache_evict cfg (Suc n) c =
     (if evictList c = [] then c
      else LRUCache_evict cfg n (LRUCache_removeElement cfg (last (evictList c)) c))"

text \<open>
  \<open>set\<close> returns the item pointer and an error; the item is the front of the list, so
  the model returns the state and the error. \<open>now\<close> is the reading of \<open>c.clock.Now()\<close>.
\<close>

definition LRUCache_set ::
  "('k, 'v, 'ctx) baseCache \<Rightarrow> time \<Rightarrow> ('k, 'v) LRUCache \<Rightarrow> 'k \<Rightarrow> 'v \<Rightarrow>
     ('k, 'v) LRUCache \<times> error option" where
  "LRUCache_set cfg now c key value0 =
     (case (case serializeFunc cfg of None \<Rightarrow> Inr value0 | Some f \<Rightarrow> f key value0) of
        Inl err \<Rightarrow> (c, Some err)
      | Inr v \<Rightarrow>
          (let (c1, item0) =
                 (case LRUCache_items c key of
                    Some it \<Rightarrow>
                      (c\<lparr>evictList := filter (\<lambda>it. item_key it \<noteq> key) (evictList c)\<rparr>,
                       it\<lparr>item_value := v\<rparr>)
                  | None \<Rightarrow>
                      (if int (length (evictList c)) \<ge> cache_size cfg then LRUCache_evict cfg 1 c else c,
                       \<lparr>item_key = key, item_value = v, item_expiration = None\<rparr>));
               item = (case expiration cfg of
                         None \<Rightarrow> item0
                       | Some d \<Rightarrow> item0\<lparr>item_expiration := Some (now + d)\<rparr>);
               c2 = c1\<lparr>evictList := item # evictList c1\<rparr>
           in (if addedFunc cfg
               then c2\<lparr>lru_added_calls := lru_added_calls c2 @ [(key, v)]\<rparr>
               else c2, None)))"

text \<open>\<open>item.expiration = &t\<close> on the item that \<open>set\<close> returned, the one stored under the key.\<close>

definition LRUCache_set_expiration :: "'k \<Rightarrow> time \<Rightarrow> ('k, 'v) LRUCache \<Rightarrow> ('k, 'v) LRUCache" where
  "LRUCache_set_expiration key t c =
     c\<lparr>evictList := map (\<lambda>it. if item_key it = key then it\<lparr>item_expiration := Some t\<rparr> else it)
                        (evictList c)\<rparr>"

definition LRUCache_Set ::
  "('k, 'v, 'ctx) baseCache \<Rightarrow> time \<Rightarrow> ('k, 'v) LRUCache \<Rightarrow> 'k \<Rightarrow> 'v \<Rightarrow>
     ('k, 'v) LRUCache \<times> error option" where
  "LRUCache_Set cfg now c key v = LRUCache_set cfg now c key v"

definition LRUCache_SetWithExpire ::
  "('k, 'v, 'ctx) baseCache \<Rightarrow> time \<Rightarrow> ('k, 'v) LRUCache \<Rightarrow> 'k \<Rightarrow> 'v \<Rightarrow> duration \<Rightarrow>
     ('k, 'v) LRUCache \<times> error option" where
  "LRUCache_SetWithExpire cfg now c key v d =
     (case LRUCache_set cfg now c key v of
        (c', Some err) \<Rightarrow> (c', Some err)
      | (c', None) \<Rightarrow> (LRUCache_set_expiration key (now + d) c', None))"

definition LRUCache_count_hit :: "bool \<Rightarrow> ('k, 'v) LRUCache \<Rightarrow> ('k, 'v) LRUCache" where
  "LRUCache_count_hit onLoad c =
     (if \<not> onLoad then c\<lparr>lru_stats := IncrHitCount (lru_stats c)\<rparr> else c)"

definition LRUCache_count_miss :: "bool \<Rightarrow> ('k, 'v) LRUCache \<Rightarrow> ('k, 'v) LRUCache" where
  "LRUCache_count_miss onLoad c =
     (if \<not> onLoad then c\<lparr>lru_stats := IncrMissCount (lru_stats c)\<rparr> else c)"

text \<open>
  \<open>getValue\<close>: a live entry moves to the front and is a hit; an expired entry is removed
  by \<open>removeElement\<close> and is a miss, like an absent key.
\<close>

definition LRUCache_getValue ::
  "('k, 'v, 'ctx) baseCache \<Rightarrow> time \<Rightarrow> ('k, 'v) LRUCache \<Rightarrow> 'k \<Rightarrow> bool \<Rightarrow>
     ('k, 'v) LRUCache \<times> (error + 'v)" where
  "LRUCache_getValue cfg now c key onLoad =
     (case LRUCache_items c key of
        Some it \<Rightarrow>
          if \<not> IsExpired now it None then
            (LRUCache_count_hit onLoad
               (c\<lparr>evictList := it # filter (\<lambda>it. item_key it \<noteq> key) (evictList c)\<rparr>),
             Inr (item_value it))
          else (LRUCache_count_miss onLoad (LRUCache_removeElement cfg it c), Inl KeyNotFoundError)
      | None \<Rightarrow> (LRUCache_count_miss onLoad c, Inl KeyNotFoundError))"

definition LRUCache_get ::
  "('k, 'v, 'ctx) baseCache \<Rightarrow> time \<Rightarrow> ('k, 'v) LRUCache \<Rightarrow> 'k \<Rightarrow> bool \<Rightarrow>
     ('k, 'v) LRUCache \<times> (error + 'v)" where
  "LRUCache_get cfg now c key onLoad =
     (case LRUCache_getValue cfg now c key onLoad of
        (c', Inl err) \<Rightarrow> (c', Inl err)
      | (c', Inr v) \<Rightarrow>
          (case deserializeFunc cfg of
             Some f \<Rightarrow> (c', f key v)
           | None \<Rightarrow> (c', Inr v)))"

text \<open>The callback that \<open>LRUCache.getWithLoader\<close> gives to \<open>load\<close>; \<open>set\<close> of LRU does not panic.\<close>

definition LRUCache_load_cb ::
  "('k, 'v, 'ctx) baseCache \<Rightarrow> time \<Rightarrow> 'k \<Rightarrow> 'v \<Rightarrow> duration option \<Rightarrow> error option \<Rightarrow>
     ('k, 'v) LRUCache \<Rightarrow> (('k, 'v) LRUCache \<times> (error + 'v)) option" where
  "LRUCache_load_cb cfg now key v ttl e c =
     (case e of
        Some err \<Rightarrow> Some (c, Inl err)
      | None \<Rightarrow>
          (case LRUCache_set cfg now c key v of
             (c', Some err) \<Rightarrow> Some (c', Inl err)
           | (c', None) \<Rightarrow>
               Some (case ttl of
                       None \<Rightarrow> c'
                     | Some d \<Rightarrow> LRUCache_set_expiration key (now + d) c', Inr v)))"

definition LRUCache_getWithLoader ::
  "('k, 'v, 'ctx) baseCache \<Rightarrow> time \<Rightarrow> ('k, 'v) LRUCache \<Rightarrow> 'ctx \<Rightarrow> 'k \<Rightarrow> bool \<Rightarrow>
     (('k, 'v) LRUCache \<times> (error + 'v)) option" where
  "LRUCache_getWithLoader cfg now c ctx key isWait =
     (case loaderExpireFunc cfg of
        None \<Rightarrow> Some (c, Inl KeyNotFoundError)
      | Some _ \<Rightarrow> load cfg ctx key (LRUCache_load_cb cfg now key) isWait c)"

text \<open>
  \<open>now\<close> is the clock reading during the lookup, \<open>now'\<close> the reading when the loaded value
  is inserted; \<open>None\<close> is a panic that reaches the caller.
\<close>

definition LRUCache_GetWithContext ::
  "('k, 'v, 'ctx) baseCache \<Rightarrow> time \<Rightarrow> time \<Rightarrow> ('k, 'v) LRUCache \<Rightarrow> 'ctx \<Rightarrow> 'k \<Rightarrow>
     (('k, 'v) LRUCache \<times> (error + 'v)) option" where
  "LRUCache_GetWithContext cfg now now' c ctx key =
     (case LRUCache_get cfg now c key False of
        (c', Inl err) \<Rightarrow>
          if errors_Is_KeyNotFoundError err then LRUCache_getWithLoader cfg now' c' ctx key True
          else Some (c', Inl err)
      | (c', Inr v) \<Rightarrow> Some (c', Inr v))"

definition LRUCache_GetIFPresentWithContext ::
  "('k, 'v, 'ctx) baseCache \<Rightarrow> time \<Rightarrow> time \<Rightarrow> ('k, 'v) LRUCache \<Rightarrow> 'ctx \<Rightarrow> 'k \<Rightarrow>
     (('k, 'v) LRUCache \<times> (error + 'v)) option" where
  "LRUCache_GetIFPresentWithContext cfg now now' c ctx key =
     (case LRUCache_get cfg now c key False of
        (c', Inl err) \<Rightarrow>
          if errors_Is_KeyNotFoundError err then LRUCache_getWithLoader cfg now' c' ctx key False
          else Some (c', Inl err)
      | (c', Inr v) \<Rightarrow> Some (c', Inr v))"

text \<open>
  \<open>Has\<close>, \<open>GetALL\<close>, \<open>Keys\<close> and \<open>Len\<close> read \<open>time.Now()\<close> (\<open>wall\<close>) and pass it to
  \<open>has\<close>; \<open>clock\<close> is the reading of the cache's clock. The snapshots range over the keys
  of \<open>c.items\<close> in an order that Go leaves open.
\<close>

definition LRUCache_has :: "time \<Rightarrow> ('k, 'v) LRUCache \<Rightarrow> 'k \<Rightarrow> time option \<Rightarrow> bool" where
  "LRUCache_has clock c key now =
     (case LRUCache_items c key of
        None \<Rightarrow> False
      | Some item \<Rightarrow> \<not> IsExpired clock item now)"

definition LRUCache_Has :: "time \<Rightarrow> time \<Rightarrow> ('k, 'v) LRUCache \<Rightarrow> 'k \<Rightarrow> bool" where
  "LRUCache_Has clock wall c key = LRUCache_has clock c key (Some wall)"

definition LRUCache_remove ::
  "('k, 'v, 'ctx) baseCache \<Rightarrow> ('k, 'v) LRUCache \<Rightarrow> 'k \<Rightarrow> ('k, 'v) LRUCache \<times> bool" where
  "LRUCache_remove cfg c key =
     (case LRUCache_items c key of
        Some ent \<Rightarrow> (LRUCache_removeElement cfg ent c, True)
      | None \<Rightarrow> (c, False))"

definition LRUCache_Remove ::
  "('k, 'v, 'ctx) baseCache \<Rightarrow> ('k, 'v) LRUCache \<Rightarrow> 'k \<Rightarrow> ('k, 'v) LRUCache \<times> bool" where
  "LRUCache_Remove cfg c key = LRUCache_remove cfg c key"

definition LRUCache_GetALL :: "time \<Rightarrow> time \<Rightarrow> ('k, 'v) LRUCache \<Rightarrow> bool \<Rightarrow> ('k \<rightharpoonup> 'v)" where
  "LRUCache_GetALL clock wall c checkExpired =
     (\<lambda>k. case LRUCache_items c k of
            None \<Rightarrow> None
          | Some item \<Rightarrow>
              if \<not> checkExpired \<or> LRUCache_has clock c k (Some wall) then Some (item_value item)
              else None)"

definition LRUCache_Keys :: "time \<Rightarrow> time \<Rightarrow> ('k, 'v) LRUCache \<Rightarrow> bool \<Rightarrow> 'k set" where
  "LRUCache_Keys clock wall c checkExpired =
     {k \<in> set (map item_key (evictList c)). \<not> checkExpired \<or> LRUCache_has clock c k (Some wall)}"

definition LRUCache_Len :: "time \<Rightarrow> time \<Rightarrow> ('k, 'v) LRUCache \<Rightarrow> bool \<Rightarrow> int" where
  "LRUCache_Len clock wall c checkExpired =
     (if \<not> checkExpired then int (card (set (map item_key (evictList c))))
      else int (card {k \<in> set (map item_key (evictList c)). LRUCache_has clock c k (Some wall)}))"

text \<open>\<open>Purge\<close>: the visitor observes only and is not traced; \<open>init\<close> empties the list.\<close>

definition LRUCache_Purge :: "('k, 'v, 'ctx) baseCache \<Rightarrow> ('k, 'v) LRUCache \<Rightarrow> ('k, 'v) LRUCache" where
  "LRUCache_Purge cfg c = c\<lparr>evictList := []\<rparr>"

section \<open>Invariants of the ARC engine\<close>

text \<open>
  The four lists share no key and repeat none; the entries are those of the keys of T1
  and T2; the counts are those of the spec.
\<close>

definition arc_lists_ok :: "('k, 'v) ARC \<Rightarrow> bool" where
  "arc_lists_ok c = distinct (t1 c @ t2 c @ b1 c @ b2 c)"

text \<open>What \<open>replace\<close> does to the lists and the entries.\<close>

definition replaced :: "('k, 'v, 'ctx) baseCache \<Rightarrow> ('k, 'v) ARC \<Rightarrow> ('k, 'v) ARC \<Rightarrow> bool" where
  "replaced cfg c c' =
     (part c' = part c \<and> arc_stats c' = arc_stats c \<and> added_calls c' = added_calls c \<and>
      ((\<not> isCacheFull cfg c \<and> c' = c) \<or>
       (isCacheFull cfg c \<and> (\<exists>xs x. t1 c = xs @ [x] \<and> t1 c' = xs \<and> b1 c' = x # b1 c \<and>
          t2 c' = t2 c \<and> b2 c' = b2 c \<and> items c' = (items c)(x := None))) \<or>
       (isCacheFull cfg c \<and> (\<exists>xs x. t2 c = xs @ [x] \<and> t2 c' = xs \<and> b2 c' = x # b2 c \<and>
          t1 c' = t1 c \<and> b1 c' = b1 c \<and> items c' = (items c)(x := None)))))"

definition arc_live :: "('k, 'v) ARC \<Rightarrow> int" where
  "arc_live c = int (length (t1 c)) + int (length (t2 c))"

definition arc_total :: "('k, 'v) ARC \<Rightarrow> int" where
  "arc_total c = int (length (t1 c)) + int (length (t2 c)) + int (length (b1 c)) + int (length (b2 c))"

definition arc_tb :: "('k, 'v) ARC \<Rightarrow> int" where
  "arc_tb c = int (length (t1 c)) + int (length (b1 c))"

definition arc_T :: "('k, 'v) ARC \<Rightarrow> 'k set" where
  "arc_T c = set (t1 c) \<union> set (t2 c)"

definition arc_B :: "('k, 'v) ARC \<Rightarrow> 'k set" where
  "arc_B c = set (b1 c) \<union> set (b2 c)"

definition arc_inv :: "('k, 'v, 'ctx) baseCache \<Rightarrow> ('k, 'v) ARC \<Rightarrow> bool" where
  "arc_inv cfg c =
     (0 < cache_size cfg \<and> arc_lists_ok c \<and> dom (items c) = arc_T c \<and>
      arc_live c \<le> cache_size cfg \<and> arc_total c \<le> 2 * cache_size cfg)"

definition arc_tight :: "('k, 'v, 'ctx) baseCache \<Rightarrow> ('k, 'v) ARC \<Rightarrow> bool" where
  "arc_tight cfg c =
     (arc_tb c \<le> cache_size cfg \<and> (arc_live c = cache_size cfg \<or> arc_B c = {}))"

text \<open>The state of \<open>set\<close> after the entry is stored and before the key is placed.\<close>

definition arc_mid :: "('k, 'v, 'ctx) baseCache \<Rightarrow> 'k \<Rightarrow> ('k, 'v) ARC \<Rightarrow> bool" where
  "arc_mid cfg key c =
     (0 < cache_size cfg \<and> arc_lists_ok c \<and> dom (items c) = insert key (arc_T c) \<and>
      arc_live c \<le> cache_size cfg \<and> arc_total c \<le> 2 * cache_size cfg)"

text \<open>The state in which a brand-new key can be pushed on T1.\<close>

definition arc_room :: "('k, 'v, 'ctx) baseCache \<Rightarrow> 'k \<Rightarrow> ('k, 'v) ARC \<Rightarrow> bool" where
  "arc_room cfg key c =
     (arc_lists_ok c \<and> key \<notin> arc_T c \<and> key \<notin> arc_B c \<and> dom (items c) = insert key (arc_T c) \<and>
      arc_live c < cache_size cfg \<and> arc_total c < 2 * cache_size cfg)"

definition arc_room_tight :: "('k, 'v, 'ctx) baseCache \<Rightarrow> ('k, 'v) ARC \<Rightarrow> bool" where
  "arc_room_tight cfg c =
     (arc_tb c < cache_size cfg \<and> (arc_live c + 1 = cache_size cfg \<or> arc_B c = {}))"

text \<open>Every entry is stored under its own key.\<close>

definition arc_keys_ok :: "('k, 'v) ARC \<Rightarrow> bool" where
  "arc_keys_ok c = (\<forall>k it. items c k = Some it \<longrightarrow> item_key it = k)"

section \<open>Example caches\<close>

text \<open>An ARC cache of size 2 with no hook, a run that only sets and reads, and a run with a \<open>Remove\<close>.\<close>

definition arc_example_cfg :: "(nat, string, unit) baseCache" where
  "arc_example_cfg = \<lparr>cache_size = 2, loaderExpireFunc = None, evictedFunc = False,
     purgeVisitorFunc = False, addedFunc = False, deserializeFunc = None, serializeFunc = None,
     expiration = None\<rparr>"

definition arc_example_run :: "(time \<times> time \<times> (nat, string, unit) arc_op) list" where
  "arc_example_run =
     [(0, 0, OpSet 1 ''a''), (1, 1, OpSet 2 ''b''), (2, 2, OpGet () 1), (3, 3, OpSet 3 ''c''),
      (4, 4, OpSet 2 ''d''), (5, 5, OpSet 4 ''e'')]"

definition arc_remove_run :: "(time \<times> time \<times> (nat, string, unit) arc_op) list" where
  "arc_remove_run =
     [(0, 0, OpSet 1 ''a''), (1, 1, OpSet 2 ''b''), (2, 2, OpRemove 1), (3, 3, OpSet 3 ''c'')]"

text \<open>
  An entry that expires at instant 10: the state after \<open>SetWithExpire(1, "a", 10)\<close> at
  clock reading 0 on a fresh cache, for each engine.
\<close>

definition expiring_item :: "(nat, string) cacheItem" where
  "expiring_item = \<lparr>item_key = 1, item_value = ''a'', item_expiration = Some 10\<rparr>"

definition lru_expiring :: "(nat, string) LRUCache" where
  "lru_expiring = \<lparr>evictList = [expiring_item], lru_stats = \<lparr>hitCount = 0, missCount = 0\<rparr>,
     lru_evicted_calls = [], lru_added_calls = []\<rparr>"

definition arc_expiring :: "(nat, string) ARC" where
  "arc_expiring = \<lparr>items = [1 \<mapsto> expiring_item], part = 0, t1 = [1], t2 = [], b1 = [], b2 = [],
     arc_stats = \<lparr>hitCount = 0, missCount = 0\<rparr>, evicted_calls = [], added_calls = []\<rparr>"

definition arc_expiring_run :: "(time \<times> time \<times> (nat, string, unit) arc_op) list" where
  "arc_expiring_run = [(0, 0, OpSetWithExpire 1 ''a'' 10)]"

text \<open>A cache of size 2 whose loader panics with the value \<open>boom\<close>.\<close>

definition panicking_cfg :: "(nat, string, unit) baseCache" where
  "panicking_cfg = \<lparr>cache_size = 2,
     loaderExpireFunc = Some (\<lambda>ctx k. LoaderPanics ''boom''), evictedFunc = True,
     purgeVisitorFunc = False, addedFunc = True, deserializeFunc = None, serializeFunc = None,
     expiration = None\<rparr>"

text \<open>
  A cache of size 2 with a loader that returns \<open>loaded\<close> and an \<open>evictedFunc\<close>; the same
  with a deserialize hook that fails with an error of its own; and the same with a
  deserialize hook that fails with \<open>KeyNotFoundError\<close>.
\<close>

definition loading_cfg :: "(nat, string, unit) baseCache" where
  "loading_cfg = \<lparr>cache_size = 2,
     loaderExpireFunc = Some (\<lambda>ctx k. LoaderReturns ''loaded'' None None), evictedFunc = True,
     purgeVisitorFunc = False, addedFunc = False, deserializeFunc = None, serializeFunc = None,
     expiration = None\<rparr>"

definition failing_deserialize_cfg :: "(nat, string, unit) baseCache" where
  "failing_deserialize_cfg = loading_cfg\<lparr>deserializeFunc := Some (\<lambda>k v. Inl (Errorf ''bad encoding''))\<rparr>"

definition sentinel_deserialize_cfg :: "(nat, string, unit) baseCache" where
  "sentinel_deserialize_cfg = loading_cfg\<lparr>deserializeFunc := Some (\<lambda>k v. Inl KeyNotFoundError)\<rparr>"

text \<open>A run on the cache of size 2 that ends full, with key 2 a ghost in B1.\<close>

definition arc_ghost_run :: "(time \<times> time \<times> (nat, string, unit) arc_op) list" where
  "arc_ghost_run =
     [(0, 0, OpSet 1 ''a''), (1, 1, OpSet 2 ''b''), (2, 2, OpGet () 1), (3, 3, OpSet 3 ''c'')]"


text \<open>The state that this run reaches: T1 = [3], T2 = [1], B1 = [2], the target \<open>p\<close> is 0.\<close>

definition arc_ghost_state :: "(nat, string) ARC" where
  "arc_ghost_state =
     \<lparr>items = [1 \<mapsto> \<lparr>item_key = 1, item_value = ''a'', item_expiration = None\<rparr>,
               3 \<mapsto> \<lparr>item_key = 3, item_value = ''c'', item_expiration = None\<rparr>],
      part = 0, t1 = [3], t2 = [1], b1 = [2], b2 = [],
      arc_stats = \<lparr>hitCount = 1, missCount = 0\<rparr>, evicted_calls = [], added_calls = []\<rparr>"

text \<open>
  The cache of size 2 with a serialize hook that rejects the value \<open>bad\<close>; a run that
  ends with keys 2 and 1 in T1, and the state after \<open>Remove(1)\<close> in the state it reaches.
\<close>

definition failing_serialize_cfg :: "(nat, string, unit) baseCache" where
  "failing_serialize_cfg =
     arc_example_cfg\<lparr>serializeFunc :=
       Some (\<lambda>k v. if v = ''bad'' then Inl (Errorf ''cannot encode'') else Inr v)\<rparr>"

definition arc_two_run :: "(time \<times> time \<times> (nat, string, unit) arc_op) list" where
  "arc_two_run = [(0, 0, OpSet 1 ''a''), (1, 1, OpSet 2 ''b'')]"

definition arc_two_state :: "(nat, string) ARC" where
  "arc_two_state =
     \<lparr>items = [1 \<mapsto> \<lparr>item_key = 1, item_value = ''a'', item_expiration = None\<rparr>,
               2 \<mapsto> \<lparr>item_key = 2, item_value = ''b'', item_expiration = None\<rparr>],
      part = 0, t1 = [2, 1], t2 = [], b1 = [], b2 = [],
      arc_stats = \<lparr>hitCount = 0, missCount = 0\<rparr>, evicted_calls = [], added_calls = []\<rparr>"

definition arc_removed_state :: "(nat, string) ARC" where
  "arc_removed_state =
     \<lparr>items = [2 \<mapsto> \<lparr>item_key = 2, item_value = ''b'', item_expiration = None\<rparr>],
      part = 0, t1 = [2], t2 = [], b1 = [1], b2 = [],
      arc_stats = \<lparr>hitCount = 0, missCount = 0\<rparr>, evicted_calls = [], added_calls = []\<rparr>"

text \<open>
  The cache with the panicking loader and a deserialize hook that fails with
  \<open>KeyNotFoundError\<close>, and the states after \<open>SetWithExpire(1, "a", 10)\<close> at clock reading
  0 on a fresh cache with an \<open>addedFunc\<close>.
\<close>

definition panicking_sentinel_cfg :: "(nat, string, unit) baseCache" where
  "panicking_sentinel_cfg =
     panicking_cfg\<lparr>deserializeFunc := Some (\<lambda>k v. Inl KeyNotFoundError)\<rparr>"

definition lru_expiring_added :: "(nat, string) LRUCache" where
  "lru_expiring_added = lru_expiring\<lparr>lru_added_calls := [(1, ''a'')]\<rparr>"

definition arc_expiring_added :: "(nat, string) ARC" where
  "arc_expiring_added = arc_expiring\<lparr>added_calls := [(1, ''a'')]\<rparr>"

section \<open>Proofs\<close>

lemma RemoveTail_snoc [simp]: "arcList_RemoveTail (xs @ [x]) = Some (x, xs)"
  by (simp add: arcList_RemoveTail_def)

lemma nonempty_snoc: "al \<noteq> [] \<Longrightarrow> \<exists>xs x. al = xs @ [x]"
  by (metis rev_exhaust)

lemma drop_item_fields [simp]:
  "items (drop_item cfg old c) = (items c)(old := None)"
  "t1 (drop_item cfg old c) = t1 c" "t2 (drop_item cfg old c) = t2 c"
  "b1 (drop_item cfg old c) = b1 c" "b2 (drop_item cfg old c) = b2 c"
  "part (drop_item cfg old c) = part c" "arc_stats (drop_item cfg old c) = arc_stats c"
  "added_calls (drop_item cfg old c) = added_calls c"
  by (auto simp: drop_item_def call_evictedFunc_def split: option.splits)

lemma call_addedFunc_fields [simp]:
  "items (call_addedFunc cfg k v c) = items c"
  "t1 (call_addedFunc cfg k v c) = t1 c" "t2 (call_addedFunc cfg k v c) = t2 c"
  "b1 (call_addedFunc cfg k v c) = b1 c" "b2 (call_addedFunc cfg k v c) = b2 c"
  "part (call_addedFunc cfg k v c) = part c" "arc_stats (call_addedFunc cfg k v c) = arc_stats c"
  "evicted_calls (call_addedFunc cfg k v c) = evicted_calls c"
  by (auto simp: call_addedFunc_def)

lemma call_evictedFunc_fields [simp]:
  "items (call_evictedFunc cfg k v c) = items c"
  "t1 (call_evictedFunc cfg k v c) = t1 c" "t2 (call_evictedFunc cfg k v c) = t2 c"
  "b1 (call_evictedFunc cfg k v c) = b1 c" "b2 (call_evictedFunc cfg k v c) = b2 c"
  "part (call_evictedFunc cfg k v c) = part c" "arc_stats (call_evictedFunc cfg k v c) = arc_stats c"
  "added_calls (call_evictedFunc cfg k v c) = added_calls c"
  by (auto simp: call_evictedFunc_def)

lemma evict_t1_effect:
  assumes "arc_lists_ok c" "t1 c = xs @ [x]"
  shows "evict_t1 c = Some (x, c\<lparr>t1 := xs, b1 := x # b1 c\<rparr>)"
  using assms by (auto simp: arc_lists_ok_def evict_t1_def arcList_PushFront_def)

lemma evict_t2_effect:
  assumes "arc_lists_ok c" "t2 c = xs @ [x]"
  shows "evict_t2 c = Some (x, c\<lparr>t2 := xs, b2 := x # b2 c\<rparr>)"
  using assms by (auto simp: arc_lists_ok_def evict_t2_def arcList_PushFront_def)

lemma replaced_t1:
  assumes "isCacheFull cfg c" "t1 c = xs @ [x]"
  shows "replaced cfg c (drop_item cfg x (c\<lparr>t1 := xs, b1 := x # b1 c\<rparr>))"
  unfolding replaced_def
  apply (intro conjI)
     apply simp
    apply simp
   apply simp
  apply (rule disjI2)
  apply (rule disjI1)
  apply (rule conjI)
   apply (rule assms(1))
  apply (rule exI[of _ xs])
  apply (rule exI[of _ x])
  apply (simp add: assms(2))
  done

lemma replaced_t2:
  assumes "isCacheFull cfg c" "t2 c = xs @ [x]"
  shows "replaced cfg c (drop_item cfg x (c\<lparr>t2 := xs, b2 := x # b2 c\<rparr>))"
  unfolding replaced_def
  apply (intro conjI)
     apply simp
    apply simp
   apply simp
  apply (rule disjI2)
  apply (rule disjI2)
  apply (rule conjI)
   apply (rule assms(1))
  apply (rule exI[of _ xs])
  apply (rule exI[of _ x])
  apply (simp add: assms(2))
  done

lemma replace_step_t1:
  assumes ok: "arc_lists_ok c" and full: "isCacheFull cfg c" and ne: "t1 c \<noteq> []"
  shows "\<exists>c'. (case evict_t1 c of
        None \<Rightarrow> None | Some (old, c') \<Rightarrow> Some (drop_item cfg old c')) = Some c' \<and> replaced cfg c c'"
proof -
  obtain xs x where t: "t1 c = xs @ [x]" using ne nonempty_snoc by blast
  have ev: "evict_t1 c = Some (x, c\<lparr>t1 := xs, b1 := x # b1 c\<rparr>)"
    by (rule evict_t1_effect[OF ok t])
  have "replaced cfg c (drop_item cfg x (c\<lparr>t1 := xs, b1 := x # b1 c\<rparr>))"
    by (rule replaced_t1[OF full t])
  then show ?thesis unfolding ev by simp
qed

lemma replace_step_t2:
  assumes ok: "arc_lists_ok c" and full: "isCacheFull cfg c" and ne: "t2 c \<noteq> []"
  shows "\<exists>c'. (case evict_t2 c of
        None \<Rightarrow> None | Some (old, c') \<Rightarrow> Some (drop_item cfg old c')) = Some c' \<and> replaced cfg c c'"
proof -
  obtain xs x where t: "t2 c = xs @ [x]" using ne nonempty_snoc by blast
  have ev: "evict_t2 c = Some (x, c\<lparr>t2 := xs, b2 := x # b2 c\<rparr>)"
    by (rule evict_t2_effect[OF ok t])
  have "replaced cfg c (drop_item cfg x (c\<lparr>t2 := xs, b2 := x # b2 c\<rparr>))"
    by (rule replaced_t2[OF full t])
  then show ?thesis unfolding ev by simp
qed

lemma replace_effect:
  assumes ok: "arc_lists_ok c" and sz: "0 < cache_size cfg"
  shows "\<exists>c'. replace cfg c key = Some c' \<and> replaced cfg c c'"
proof (cases "isCacheFull cfg c")
  case False
  then show ?thesis by (simp add: replace_def replaced_def)
next
  case True
  then have ne: "t1 c \<noteq> [] \<or> t2 c \<noteq> []"
    using sz by (auto simp: isCacheFull_def arcList_Len_def)
  define A where "A = (arcList_Len (t1 c) > 0 \<and>
                  ((arcList_Has key (b2 c) \<and> arcList_Len (t1 c) = part c) \<or>
                   arcList_Len (t1 c) > part c))"
  define B where "B = (arcList_Len (t2 c) > 0)"
  have r: "replace cfg c key =
     (case (if A then evict_t1 c else if B then evict_t2 c else evict_t1 c) of
        None \<Rightarrow> None | Some (old, c') \<Rightarrow> Some (drop_item cfg old c'))"
    unfolding replace_def A_def B_def by (simp only: True not_True_eq_False if_False)
  have A1: "A \<Longrightarrow> t1 c \<noteq> []" by (auto simp: A_def arcList_Len_def)
  have B1: "B \<longleftrightarrow> t2 c \<noteq> []" by (auto simp: B_def arcList_Len_def)
  consider (a) "A" | (b) "\<not> A" "B" | (c) "\<not> A" "\<not> B" by blast
  then show ?thesis
  proof cases
    case a
    then show ?thesis unfolding r using replace_step_t1[OF ok True] A1 by simp
  next
    case b
    then show ?thesis unfolding r using replace_step_t2[OF ok True] B1 by simp
  next
    case c
    then have "t1 c \<noteq> []" using ne B1 by simp
    then show ?thesis unfolding r using c replace_step_t1[OF ok True] by simp
  qed
qed

lemma isCacheFull_live: "isCacheFull cfg c \<longleftrightarrow> arc_live c = cache_size cfg"
  by (simp add: isCacheFull_def arc_live_def arcList_Len_def)

lemma setPart_fields [simp]:
  "items (setPart cfg c p) = items c"
  "t1 (setPart cfg c p) = t1 c" "t2 (setPart cfg c p) = t2 c"
  "b1 (setPart cfg c p) = b1 c" "b2 (setPart cfg c p) = b2 c"
  "arc_stats (setPart cfg c p) = arc_stats c" "added_calls (setPart cfg c p) = added_calls c"
  "evicted_calls (setPart cfg c p) = evicted_calls c"
  "isCacheFull cfg (setPart cfg c p) = isCacheFull cfg c"
  by (auto simp: setPart_def isCacheFull_def)

lemma replaced_cases:
  assumes "replaced cfg c c'"
  obtains (same) "\<not> isCacheFull cfg c" "c' = c"
  | (T1) xs x where "isCacheFull cfg c" "t1 c = xs @ [x]" "t1 c' = xs" "b1 c' = x # b1 c"
      "t2 c' = t2 c" "b2 c' = b2 c" "items c' = (items c)(x := None)"
  | (T2) xs x where "isCacheFull cfg c" "t2 c = xs @ [x]" "t2 c' = xs" "b2 c' = x # b2 c"
      "t1 c' = t1 c" "b1 c' = b1 c" "items c' = (items c)(x := None)"
  using assms unfolding replaced_def by blast

lemma arc_lists_ok_iff:
  "arc_lists_ok c \<longleftrightarrow>
     distinct (t1 c) \<and> distinct (t2 c) \<and> distinct (b1 c) \<and> distinct (b2 c) \<and>
     (\<forall>x. x \<in> set (t1 c) \<longrightarrow> x \<notin> set (t2 c) \<and> x \<notin> set (b1 c) \<and> x \<notin> set (b2 c)) \<and>
     (\<forall>x. x \<in> set (t2 c) \<longrightarrow> x \<notin> set (b1 c) \<and> x \<notin> set (b2 c)) \<and>
     (\<forall>x. x \<in> set (b1 c) \<longrightarrow> x \<notin> set (b2 c))"
  unfolding arc_lists_ok_def by auto

text \<open>What an eviction by \<open>replace\<close> keeps and what it changes, in numbers and sets.\<close>

lemma replaced_summary:
  assumes ok: "arc_lists_ok c" and r: "replaced cfg c c'"
  shows "arc_lists_ok c'"
    and "arc_T c' \<subseteq> arc_T c"
    and "set (b1 c) \<subseteq> set (b1 c')" and "set (b2 c) \<subseteq> set (b2 c')"
    and "arc_T c' \<union> arc_B c' = arc_T c \<union> arc_B c"
    and "dom (items c') = dom (items c) - (arc_T c - arc_T c')"
    and "arc_live c' = arc_live c - (if isCacheFull cfg c then 1 else 0)"
    and "arc_total c' = arc_total c"
    and "arc_tb c' = arc_tb c"
    and "arc_B c' = {} \<Longrightarrow> \<not> isCacheFull cfg c"
    and "\<And>k. k \<notin> arc_T c \<Longrightarrow> items c' k = items c k"
proof -
  note defs = arc_T_def arc_B_def arc_live_def arc_total_def arc_tb_def
  from r show "arc_lists_ok c'"
  proof (cases rule: replaced_cases)
    case (T1 xs x)
    then show ?thesis using ok[unfolded arc_lists_ok_iff] by (auto simp: arc_lists_ok_iff)
  next
    case (T2 xs x)
    then show ?thesis using ok[unfolded arc_lists_ok_iff] by (auto simp: arc_lists_ok_iff)
  qed (simp add: ok)
  from r show "arc_T c' \<subseteq> arc_T c"
    by (cases rule: replaced_cases) (auto simp: defs)
  from r show "set (b1 c) \<subseteq> set (b1 c')"
    by (cases rule: replaced_cases) (auto simp: defs)
  from r show "set (b2 c) \<subseteq> set (b2 c')"
    by (cases rule: replaced_cases) (auto simp: defs)
  from r show "arc_T c' \<union> arc_B c' = arc_T c \<union> arc_B c"
    by (cases rule: replaced_cases) (auto simp: defs)
  from r show "dom (items c') = dom (items c) - (arc_T c - arc_T c')"
  proof (cases rule: replaced_cases)
    case (T1 xs x)
    then show ?thesis using ok[unfolded arc_lists_ok_iff] by (auto simp: defs)
  next
    case (T2 xs x)
    then show ?thesis using ok[unfolded arc_lists_ok_iff] by (auto simp: defs)
  qed simp
  from r show "arc_live c' = arc_live c - (if isCacheFull cfg c then 1 else 0)"
    by (cases rule: replaced_cases) (simp_all add: defs)
  from r show "arc_total c' = arc_total c"
    by (cases rule: replaced_cases) (simp_all add: defs)
  from r show "arc_tb c' = arc_tb c"
    by (cases rule: replaced_cases) (simp_all add: defs)
  from r show "arc_B c' = {} \<Longrightarrow> \<not> isCacheFull cfg c"
    by (cases rule: replaced_cases) (simp_all add: defs)
  from r show "\<And>k. k \<notin> arc_T c \<Longrightarrow> items c' k = items c k"
    by (cases rule: replaced_cases) (auto simp: defs)
qed

lemmas arc_abs_defs = arc_T_def arc_B_def arc_live_def arc_total_def arc_tb_def

lemma Len_Remove: "k \<in> set al \<Longrightarrow> int (length (arcList_Remove k al)) = int (length al) - 1"
  by (cases al) (simp_all add: arcList_Remove_def length_remove1 del: remove1.simps)

lemma set_Remove: "distinct al \<Longrightarrow> set (arcList_Remove k al) = set al - {k}"
  by (simp add: arcList_Remove_def)

lemma distinct_Remove: "distinct al \<Longrightarrow> distinct (arcList_Remove k al)"
  by (simp add: arcList_Remove_def)

lemma PushFront_new: "k \<notin> set al \<Longrightarrow> arcList_PushFront k al = k # al"
  by (simp add: arcList_PushFront_def)

text \<open>A ghost of B1 or B2 becomes the front of T2.\<close>

lemma ghost_b1_move:
  assumes ok: "arc_lists_ok c" and k: "key \<in> set (b1 c)"
    and f: "t1 c' = t1 c" "t2 c' = arcList_PushFront key (t2 c)"
           "b1 c' = arcList_Remove key (b1 c)" "b2 c' = b2 c"
  shows "arc_lists_ok c'" and "arc_T c' = insert key (arc_T c)"
    and "arc_live c' = arc_live c + 1" and "arc_total c' = arc_total c"
    and "arc_tb c' = arc_tb c - 1" and "t2 c' = key # t2 c"
proof -
  have n: "key \<notin> set (t1 c)" "key \<notin> set (t2 c)" "key \<notin> set (b2 c)"
    using ok k unfolding arc_lists_ok_iff by blast+
  then show t2: "t2 c' = key # t2 c" by (simp add: f PushFront_new)
  show "arc_lists_ok c'" using ok[unfolded arc_lists_ok_iff] k n
    by (auto simp: arc_lists_ok_iff f(1,3,4) t2 set_Remove distinct_Remove)
  show "arc_T c' = insert key (arc_T c)" by (auto simp: arc_T_def f(1) t2)
  show "arc_live c' = arc_live c + 1" by (simp add: arc_live_def f(1) t2)
  show "arc_total c' = arc_total c" using k by (simp add: arc_total_def f(1,3,4) t2 Len_Remove)
  show "arc_tb c' = arc_tb c - 1" using k by (simp add: arc_tb_def f(1,3) Len_Remove)
qed

lemma ghost_b2_move:
  assumes ok: "arc_lists_ok c" and k: "key \<in> set (b2 c)"
    and f: "t1 c' = t1 c" "t2 c' = arcList_PushFront key (t2 c)"
           "b2 c' = arcList_Remove key (b2 c)" "b1 c' = b1 c"
  shows "arc_lists_ok c'" and "arc_T c' = insert key (arc_T c)"
    and "arc_live c' = arc_live c + 1" and "arc_total c' = arc_total c"
    and "arc_tb c' = arc_tb c" and "t2 c' = key # t2 c"
proof -
  have n: "key \<notin> set (t1 c)" "key \<notin> set (t2 c)" "key \<notin> set (b1 c)"
    using ok k unfolding arc_lists_ok_iff by blast+
  then show t2: "t2 c' = key # t2 c" by (simp add: f PushFront_new)
  show "arc_lists_ok c'" using ok[unfolded arc_lists_ok_iff] k n
    by (auto simp: arc_lists_ok_iff f(1,3,4) t2 set_Remove distinct_Remove)
  show "arc_T c' = insert key (arc_T c)" by (auto simp: arc_T_def f(1) t2)
  show "arc_live c' = arc_live c + 1" by (simp add: arc_live_def f(1) t2)
  show "arc_total c' = arc_total c" using k by (simp add: arc_total_def f(1,3,4) t2 Len_Remove)
  show "arc_tb c' = arc_tb c" using k by (simp add: arc_tb_def f(1,4))
qed

text \<open>A brand-new key becomes the front of T1.\<close>

lemma new_t1_move:
  assumes ok: "arc_lists_ok c" and k: "key \<notin> arc_T c" "key \<notin> arc_B c"
    and f: "t1 c' = arcList_PushFront key (t1 c)" "t2 c' = t2 c" "b1 c' = b1 c" "b2 c' = b2 c"
  shows "arc_lists_ok c'" and "arc_T c' = insert key (arc_T c)" and "arc_B c' = arc_B c"
    and "arc_live c' = arc_live c + 1" and "arc_total c' = arc_total c + 1"
    and "arc_tb c' = arc_tb c + 1" and "t1 c' = key # t1 c"
proof -
  have n: "key \<notin> set (t1 c)" "key \<notin> set (t2 c)" "key \<notin> set (b1 c)" "key \<notin> set (b2 c)"
    using k by (auto simp: arc_T_def arc_B_def)
  then show t1: "t1 c' = key # t1 c" by (simp add: f PushFront_new)
  show "arc_lists_ok c'" using ok[unfolded arc_lists_ok_iff] n
    by (auto simp: arc_lists_ok_iff f(2,3,4) t1)
  show "arc_T c' = insert key (arc_T c)" by (auto simp: arc_T_def f(2) t1)
  show "arc_B c' = arc_B c" by (simp add: arc_B_def f(3,4))
  show "arc_live c' = arc_live c + 1" by (simp add: arc_live_def f(2) t1)
  show "arc_total c' = arc_total c + 1" by (simp add: arc_total_def f(2,3,4) t1)
  show "arc_tb c' = arc_tb c + 1" by (simp add: arc_tb_def f(3) t1)
qed

text \<open>The tail of a ghost list is dropped.\<close>

lemma trim_b1_move:
  assumes ok: "arc_lists_ok c" and b: "b1 c = ys @ [y]"
    and f: "t1 c' = t1 c" "t2 c' = t2 c" "b1 c' = ys" "b2 c' = b2 c"
  shows "arc_lists_ok c'" and "arc_T c' = arc_T c" and "arc_B c' \<subseteq> arc_B c"
    and "arc_live c' = arc_live c" and "arc_total c' = arc_total c - 1"
    and "arc_tb c' = arc_tb c - 1"
proof -
  show "arc_lists_ok c'" using ok[unfolded arc_lists_ok_iff]
    by (auto simp: arc_lists_ok_iff f b)
  show "arc_T c' = arc_T c" by (simp add: arc_T_def f)
  show "arc_B c' \<subseteq> arc_B c" by (auto simp: arc_B_def f b)
  show "arc_live c' = arc_live c" by (simp add: arc_live_def f)
  show "arc_total c' = arc_total c - 1" by (simp add: arc_total_def f b)
  show "arc_tb c' = arc_tb c - 1" by (simp add: arc_tb_def f b)
qed

lemma trim_b2_move:
  assumes ok: "arc_lists_ok c" and b: "b2 c = ys @ [y]"
    and f: "t1 c' = t1 c" "t2 c' = t2 c" "b2 c' = ys" "b1 c' = b1 c"
  shows "arc_lists_ok c'" and "arc_T c' = arc_T c" and "arc_B c' \<subseteq> arc_B c"
    and "arc_live c' = arc_live c" and "arc_total c' = arc_total c - 1"
    and "arc_tb c' = arc_tb c"
proof -
  show "arc_lists_ok c'" using ok[unfolded arc_lists_ok_iff]
    by (auto simp: arc_lists_ok_iff f b)
  show "arc_T c' = arc_T c" by (simp add: arc_T_def f)
  show "arc_B c' \<subseteq> arc_B c" by (auto simp: arc_B_def f b)
  show "arc_live c' = arc_live c" by (simp add: arc_live_def f)
  show "arc_total c' = arc_total c - 1" by (simp add: arc_total_def f b)
  show "arc_tb c' = arc_tb c" by (simp add: arc_tb_def f b)
qed

text \<open>The tail of T1 is dropped together with its entry, leaving no ghost.\<close>

lemma pop_t1_move:
  assumes ok: "arc_lists_ok c" and t: "t1 c = xs @ [x]"
    and f: "t1 c' = xs" "t2 c' = t2 c" "b1 c' = b1 c" "b2 c' = b2 c"
           "items c' = (items c)(x := None)"
  shows "arc_lists_ok c'" and "arc_T c' = arc_T c - {x}" and "arc_B c' = arc_B c"
    and "arc_live c' = arc_live c - 1" and "arc_total c' = arc_total c - 1"
    and "arc_tb c' = arc_tb c - 1" and "dom (items c') = dom (items c) - {x}"
proof -
  show "arc_lists_ok c'" using ok[unfolded arc_lists_ok_iff]
    by (auto simp: arc_lists_ok_iff f t)
  show "arc_T c' = arc_T c - {x}" using ok[unfolded arc_lists_ok_iff]
    by (auto simp: arc_T_def f t)
  show "arc_B c' = arc_B c" by (simp add: arc_B_def f)
  show "arc_live c' = arc_live c - 1" by (simp add: arc_live_def f t)
  show "arc_total c' = arc_total c - 1" by (simp add: arc_total_def f t)
  show "arc_tb c' = arc_tb c - 1" by (simp add: arc_tb_def f t)
  show "dom (items c') = dom (items c) - {x}" by (auto simp: f)
qed

text \<open>The branches of \<open>set_make_room\<close>, each under its conditions.\<close>

lemma make_room_trim_b1:
  assumes "isCacheFull cfg c" "arc_tb c = cache_size cfg" "int (length (t1 c)) < cache_size cfg"
    "b1 c = ys @ [y]"
  shows "set_make_room cfg c key = replace cfg (c\<lparr>b1 := ys\<rparr>) key"
  using assms by (simp add: set_make_room_def arc_tb_def arcList_Len_def)

lemma make_room_pop_t1:
  assumes "isCacheFull cfg c" "arc_tb c = cache_size cfg" "\<not> int (length (t1 c)) < cache_size cfg"
    "t1 c = xs @ [x]"
  shows "set_make_room cfg c key = Some (drop_item cfg x (c\<lparr>t1 := xs\<rparr>))"
  using assms by (simp add: set_make_room_def arc_tb_def arcList_Len_def)

lemma make_room_total_b2:
  assumes "\<not> (isCacheFull cfg c \<and> arc_tb c = cache_size cfg)" "arc_total c = 2 * cache_size cfg"
    "0 < cache_size cfg" "b2 c = ys @ [y]"
  shows "set_make_room cfg c key = replace cfg (c\<lparr>b2 := ys\<rparr>) key"
  using assms by (auto simp: set_make_room_def arc_tb_def arc_total_def arcList_Len_def Let_def)

lemma make_room_total_b1:
  assumes "\<not> (isCacheFull cfg c \<and> arc_tb c = cache_size cfg)" "arc_total c = 2 * cache_size cfg"
    "0 < cache_size cfg" "b2 c = []" "b1 c = ys @ [y]"
  shows "set_make_room cfg c key = replace cfg (c\<lparr>b1 := ys\<rparr>) key"
  using assms by (auto simp: set_make_room_def arc_tb_def arc_total_def arcList_Len_def Let_def)

lemma make_room_replace:
  assumes "\<not> (isCacheFull cfg c \<and> arc_tb c = cache_size cfg)" "arc_total c \<noteq> 2 * cache_size cfg"
    "cache_size cfg \<le> arc_total c"
  shows "set_make_room cfg c key = replace cfg c key"
  using assms by (auto simp: set_make_room_def arc_tb_def arc_total_def arcList_Len_def Let_def)

lemma make_room_nothing:
  assumes "\<not> (isCacheFull cfg c \<and> arc_tb c = cache_size cfg)" "arc_total c < cache_size cfg"
  shows "set_make_room cfg c key = Some c"
  using assms by (auto simp: set_make_room_def arc_tb_def arc_total_def arcList_Len_def Let_def)

lemma replaced_new_key:
  assumes ok: "arc_lists_ok c" and r: "replaced cfg c c'"
    and k: "key \<notin> arc_T c" "key \<notin> arc_B c" and d: "dom (items c) = insert key (arc_T c)"
  shows "key \<notin> arc_T c'" and "key \<notin> arc_B c'" and "dom (items c') = insert key (arc_T c')"
proof -
  note s = replaced_summary[OF ok r]
  show "key \<notin> arc_T c'" using s(2) k(1) by blast
  show "key \<notin> arc_B c'" using s(5) k by blast
  show "dom (items c') = insert key (arc_T c')" using s(2,6) d k(1) by auto
qed

lemma set_make_room_effect:
  assumes mid: "arc_mid cfg key c" and k: "key \<notin> arc_T c" "key \<notin> arc_B c"
  shows "\<exists>c3. set_make_room cfg c key = Some c3 \<and> arc_room cfg key c3 \<and>
           (arc_tight cfg c \<longrightarrow> arc_room_tight cfg c3) \<and> items c3 key = items c key"
proof -
  have sz: "0 < cache_size cfg" and ok: "arc_lists_ok c"
    and d: "dom (items c) = insert key (arc_T c)"
    and live: "arc_live c \<le> cache_size cfg" and total: "arc_total c \<le> 2 * cache_size cfg"
    using mid by (simp_all add: arc_mid_def)
  have rel: "arc_total c = arc_live c + int (length (b1 c)) + int (length (b2 c))"
    "arc_tb c = int (length (t1 c)) + int (length (b1 c))"
    "arc_live c = int (length (t1 c)) + int (length (t2 c))"
    by (simp_all add: arc_abs_defs)
  have full: "isCacheFull cfg c \<longleftrightarrow> arc_live c = cache_size cfg" by (rule isCacheFull_live)
  text \<open>A ghost tail is dropped and \<open>replace\<close> runs on the rest.\<close>
  have via_replace: "\<exists>c3. replace cfg ca key = Some c3 \<and> arc_room cfg key c3 \<and>
           (arc_tight cfg c \<longrightarrow> arc_room_tight cfg c3) \<and> items c3 key = items c key"
    if ca: "arc_lists_ok ca" "arc_T ca = arc_T c" "arc_B ca \<subseteq> arc_B c" "items ca = items c"
      and n: "arc_live ca = arc_live c" "arc_total ca < 2 * cache_size cfg"
      and tt: "arc_tight cfg c \<Longrightarrow> arc_tb ca < cache_size cfg \<and>
                 (arc_live c = cache_size cfg \<or> arc_B ca = {})"
    for ca
  proof -
    obtain c3 where c3: "replace cfg ca key = Some c3" and r: "replaced cfg ca c3"
      using replace_effect[OF ca(1) sz] by blast
    note s = replaced_summary[OF ca(1) r]
    have k': "key \<notin> arc_T ca" "key \<notin> arc_B ca" using k ca(2,3) by auto
    have d': "dom (items ca) = insert key (arc_T ca)" using d ca(2,4) by simp
    note nk = replaced_new_key[OF ca(1) r k' d']
    have l3: "arc_live c3 < cache_size cfg"
      using s(7) n(1) live by (auto simp: isCacheFull_live split: if_splits)
    have room: "arc_room cfg key c3"
      using s(1) nk l3 s(8) n(2) by (simp add: arc_room_def)
    have tight: "arc_room_tight cfg c3" if "arc_tight cfg c"
    proof -
      from tt[OF that] have a: "arc_tb ca < cache_size cfg"
        and b: "arc_live c = cache_size cfg \<or> arc_B ca = {}" by simp_all
      from b show ?thesis
      proof
        assume "arc_live c = cache_size cfg"
        then show ?thesis using a s(7,9) n(1) by (simp add: arc_room_tight_def isCacheFull_live)
      next
        assume e: "arc_B ca = {}"
        show ?thesis
        proof (cases "isCacheFull cfg ca")
          case True
          then show ?thesis using a s(7,9) n(1) by (simp add: arc_room_tight_def isCacheFull_live)
        next
          case False
          then have "c3 = ca" using r by (auto simp: replaced_def)
          then show ?thesis using a e by (simp add: arc_room_tight_def)
        qed
      qed
    qed
    have "items c3 key = items c key" using s(11)[OF k'(1)] ca(4) by simp
    then show ?thesis using c3 room tight by blast
  qed
  show ?thesis
  proof (cases "isCacheFull cfg c \<and> arc_tb c = cache_size cfg")
    case True
    then have f: "isCacheFull cfg c" and tb: "arc_tb c = cache_size cfg" by simp_all
    show ?thesis
    proof (cases "int (length (t1 c)) < cache_size cfg")
      case lt: True
      then have "b1 c \<noteq> []" using tb rel(2) by auto
      then obtain ys y where b: "b1 c = ys @ [y]" using nonempty_snoc by blast
      define ca where "ca = c\<lparr>b1 := ys\<rparr>"
      have fs: "t1 ca = t1 c" "t2 ca = t2 c" "b1 ca = ys" "b2 ca = b2 c" "items ca = items c"
        by (simp_all add: ca_def)
      note m = trim_b1_move[OF ok b fs(1-4)]
      have "\<exists>c3. replace cfg ca key = Some c3 \<and> arc_room cfg key c3 \<and>
           (arc_tight cfg c \<longrightarrow> arc_room_tight cfg c3) \<and> items c3 key = items c key"
      proof (rule via_replace)
        show "arc_lists_ok ca" "arc_T ca = arc_T c" "arc_B ca \<subseteq> arc_B c" "items ca = items c"
          "arc_live ca = arc_live c" using m fs(5) by simp_all
        show "arc_total ca < 2 * cache_size cfg" using m(5) total by simp
        show "arc_tb ca < cache_size cfg \<and> (arc_live c = cache_size cfg \<or> arc_B ca = {})"
          using m(6) tb f full by simp
      qed
      then show ?thesis using make_room_trim_b1[OF f tb lt b, of key] by (simp add: ca_def)
    next
      case ge: False
      then have "t1 c \<noteq> []" using sz by auto
      then obtain xs x where t: "t1 c = xs @ [x]" using nonempty_snoc by blast
      define c3 where "c3 = drop_item cfg x (c\<lparr>t1 := xs\<rparr>)"
      have fs: "t1 c3 = xs" "t2 c3 = t2 c" "b1 c3 = b1 c" "b2 c3 = b2 c"
        "items c3 = (items c)(x := None)" by (simp_all add: c3_def)
      note m = pop_t1_move[OF ok t fs]
      have xk: "x \<noteq> key" using k(1) t by (auto simp: arc_T_def)
      have "arc_room cfg key c3"
        using m k d live total xk by (auto simp: arc_room_def)
      moreover have "arc_room_tight cfg c3"
        using m tb f full by (simp add: arc_room_tight_def)
      moreover have "items c3 key = items c key" using xk by (simp add: fs)
      ultimately show ?thesis using make_room_pop_t1[OF f tb ge t, of key] by (simp add: c3_def)
    qed
  next
    case nf: False
    have tb_lt: "arc_tb c < cache_size cfg" if "arc_tight cfg c" "arc_live c = cache_size cfg"
      using that nf full by (auto simp: arc_tight_def)
    consider (b2) "arc_total c = 2 * cache_size cfg" "b2 c \<noteq> []"
      | (b1) "arc_total c = 2 * cache_size cfg" "b2 c = []"
      | (rep) "arc_total c \<noteq> 2 * cache_size cfg" "cache_size cfg \<le> arc_total c"
      | (none) "arc_total c < cache_size cfg" using sz by fastforce
    then show ?thesis
    proof cases
      case b2
      then obtain ys y where b: "b2 c = ys @ [y]" using nonempty_snoc by blast
      define ca where "ca = c\<lparr>b2 := ys\<rparr>"
      have fs: "t1 ca = t1 c" "t2 ca = t2 c" "b2 ca = ys" "b1 ca = b1 c" "items ca = items c"
        by (simp_all add: ca_def)
      note m = trim_b2_move[OF ok b fs(1-4)]
      have bne: "arc_B c \<noteq> {}" using b by (simp add: arc_B_def)
      have "\<exists>c3. replace cfg ca key = Some c3 \<and> arc_room cfg key c3 \<and>
           (arc_tight cfg c \<longrightarrow> arc_room_tight cfg c3) \<and> items c3 key = items c key"
      proof (rule via_replace)
        show "arc_lists_ok ca" "arc_T ca = arc_T c" "arc_B ca \<subseteq> arc_B c" "items ca = items c"
          "arc_live ca = arc_live c" using m fs(5) by simp_all
        show "arc_total ca < 2 * cache_size cfg" using m(5) total by simp
        show "arc_tb ca < cache_size cfg \<and> (arc_live c = cache_size cfg \<or> arc_B ca = {})"
          if "arc_tight cfg c"
          using that tb_lt[OF that] bne m(6) by (auto simp: arc_tight_def)
      qed
      then show ?thesis using make_room_total_b2[OF nf b2(1) sz b, of key] by (simp add: ca_def)
    next
      case b1
      then have "b1 c \<noteq> []" using rel(1) live sz by auto
      then obtain ys y where b: "b1 c = ys @ [y]" using nonempty_snoc by blast
      define ca where "ca = c\<lparr>b1 := ys\<rparr>"
      have fs: "t1 ca = t1 c" "t2 ca = t2 c" "b1 ca = ys" "b2 ca = b2 c" "items ca = items c"
        by (simp_all add: ca_def)
      note m = trim_b1_move[OF ok b fs(1-4)]
      have bne: "arc_B c \<noteq> {}" using b by (simp add: arc_B_def)
      have "\<exists>c3. replace cfg ca key = Some c3 \<and> arc_room cfg key c3 \<and>
           (arc_tight cfg c \<longrightarrow> arc_room_tight cfg c3) \<and> items c3 key = items c key"
      proof (rule via_replace)
        show "arc_lists_ok ca" "arc_T ca = arc_T c" "arc_B ca \<subseteq> arc_B c" "items ca = items c"
          "arc_live ca = arc_live c" using m fs(5) by simp_all
        show "arc_total ca < 2 * cache_size cfg" using m(5) total by simp
        show "arc_tb ca < cache_size cfg \<and> (arc_live c = cache_size cfg \<or> arc_B ca = {})"
          if "arc_tight cfg c"
          using that tb_lt[OF that] bne m(6) by (auto simp: arc_tight_def)
      qed
      then show ?thesis using make_room_total_b1[OF nf b1(1) sz b1(2) b, of key]
        by (simp add: ca_def)
    next
      case rep
      have "\<exists>c3. replace cfg c key = Some c3 \<and> arc_room cfg key c3 \<and>
           (arc_tight cfg c \<longrightarrow> arc_room_tight cfg c3) \<and> items c3 key = items c key"
      proof (rule via_replace)
        show "arc_lists_ok c" "arc_T c = arc_T c" "arc_B c \<subseteq> arc_B c" "items c = items c"
          "arc_live c = arc_live c" using ok by simp_all
        show "arc_total c < 2 * cache_size cfg" using rep(1) total by simp
        show "arc_tb c < cache_size cfg \<and> (arc_live c = cache_size cfg \<or> arc_B c = {})"
          if "arc_tight cfg c"
        proof (cases "arc_live c = cache_size cfg")
          case True
          then show ?thesis using tb_lt[OF that] by simp
        next
          case False
          then have "arc_B c = {}" using that by (simp add: arc_tight_def)
          then have "arc_tb c = int (length (t1 c))" by (simp add: arc_B_def arc_tb_def)
          then show ?thesis using False live rel(3) \<open>arc_B c = {}\<close> by simp
        qed
      qed
      then show ?thesis using make_room_replace[OF nf rep, of key] by simp
    next
      case none
      have l: "arc_live c < cache_size cfg" using none rel(1) by simp
      have "arc_room cfg key c" using ok k d l none sz by (simp add: arc_room_def)
      moreover have "arc_room_tight cfg c" if "arc_tight cfg c"
      proof -
        have "arc_B c = {}" using that l by (simp add: arc_tight_def)
        moreover have "arc_tb c < cache_size cfg" using none rel by simp
        ultimately show ?thesis by (simp add: arc_room_tight_def)
      qed
      ultimately show ?thesis using make_room_nothing[OF nf none, of key] by simp
    qed
  qed
qed

text \<open>The list part of the state is not touched by the bookkeeping updates.\<close>

lemma frame_setPart [simp]:
  "arc_lists_ok (setPart cfg c p) = arc_lists_ok c" "arc_T (setPart cfg c p) = arc_T c"
  "arc_B (setPart cfg c p) = arc_B c" "arc_live (setPart cfg c p) = arc_live c"
  "arc_total (setPart cfg c p) = arc_total c" "arc_tb (setPart cfg c p) = arc_tb c"
  by (simp_all add: arc_lists_ok_def arc_abs_defs)

lemma frame_addedFunc [simp]:
  "arc_lists_ok (call_addedFunc cfg k v c) = arc_lists_ok c" "arc_T (call_addedFunc cfg k v c) = arc_T c"
  "arc_B (call_addedFunc cfg k v c) = arc_B c" "arc_live (call_addedFunc cfg k v c) = arc_live c"
  "arc_total (call_addedFunc cfg k v c) = arc_total c" "arc_tb (call_addedFunc cfg k v c) = arc_tb c"
  by (simp_all add: arc_lists_ok_def arc_abs_defs)

lemma frame_evictedFunc [simp]:
  "arc_lists_ok (call_evictedFunc cfg k v c) = arc_lists_ok c"
  "arc_T (call_evictedFunc cfg k v c) = arc_T c"
  "arc_B (call_evictedFunc cfg k v c) = arc_B c" "arc_live (call_evictedFunc cfg k v c) = arc_live c"
  "arc_total (call_evictedFunc cfg k v c) = arc_total c"
  "arc_tb (call_evictedFunc cfg k v c) = arc_tb c"
  by (simp_all add: arc_lists_ok_def arc_abs_defs)

lemma frame_items [simp]:
  "arc_lists_ok (c\<lparr>items := m\<rparr>) = arc_lists_ok c" "arc_T (c\<lparr>items := m\<rparr>) = arc_T c"
  "arc_B (c\<lparr>items := m\<rparr>) = arc_B c" "arc_live (c\<lparr>items := m\<rparr>) = arc_live c"
  "arc_total (c\<lparr>items := m\<rparr>) = arc_total c" "arc_tb (c\<lparr>items := m\<rparr>) = arc_tb c"
  by (simp_all add: arc_lists_ok_def arc_abs_defs)

lemma frame_stats [simp]:
  "arc_lists_ok (c\<lparr>arc_stats := m\<rparr>) = arc_lists_ok c" "arc_T (c\<lparr>arc_stats := m\<rparr>) = arc_T c"
  "arc_B (c\<lparr>arc_stats := m\<rparr>) = arc_B c" "arc_live (c\<lparr>arc_stats := m\<rparr>) = arc_live c"
  "arc_total (c\<lparr>arc_stats := m\<rparr>) = arc_total c" "arc_tb (c\<lparr>arc_stats := m\<rparr>) = arc_tb c"
  by (simp_all add: arc_lists_ok_def arc_abs_defs)

lemma arc_inv_cong:
  assumes "t1 c' = t1 c" "t2 c' = t2 c" "b1 c' = b1 c" "b2 c' = b2 c" "dom (items c') = dom (items c)"
  shows "arc_inv cfg c' = arc_inv cfg c" "arc_tight cfg c' = arc_tight cfg c"
  using assms by (simp_all add: arc_inv_def arc_tight_def arc_lists_ok_def arc_abs_defs)

lemma arc_tight_cong:
  assumes "t1 c' = t1 c" "t2 c' = t2 c" "b1 c' = b1 c" "b2 c' = b2 c"
  shows "arc_tight cfg c' = arc_tight cfg c"
  using assms by (simp_all add: arc_tight_def arc_abs_defs)

lemma set_place_effect:
  assumes mid: "arc_mid cfg key c1"
  shows "\<exists>c'. set_place cfg c1 key v = Some c' \<and> arc_inv cfg c' \<and> key \<in> arc_T c' \<and>
           items c' key = items c1 key \<and> (arc_tight cfg c1 \<longrightarrow> arc_tight cfg c')"
proof -
  have sz: "0 < cache_size cfg" and ok: "arc_lists_ok c1"
    and d: "dom (items c1) = insert key (arc_T c1)"
    and live: "arc_live c1 \<le> cache_size cfg" and total: "arc_total c1 \<le> 2 * cache_size cfg"
    using mid by (simp_all add: arc_mid_def)
  have okD: "\<And>x. x \<in> set (b1 c1) \<Longrightarrow> x \<notin> arc_T c1 \<and> x \<notin> set (b2 c1)"
    "\<And>x. x \<in> set (b2 c1) \<Longrightarrow> x \<notin> arc_T c1"
    using ok unfolding arc_lists_ok_iff arc_T_def by blast+
  consider (live) "key \<in> arc_T c1"
    | (b1) "key \<notin> arc_T c1" "key \<in> set (b1 c1)"
    | (b2) "key \<notin> arc_T c1" "key \<notin> set (b1 c1)" "key \<in> set (b2 c1)"
    | (new) "key \<notin> arc_T c1" "key \<notin> arc_B c1" by (auto simp: arc_B_def)
  then show ?thesis
  proof cases
    case live
    then have "set_place cfg c1 key v = Some (call_addedFunc cfg key v c1)"
      by (auto simp: set_place_def arcList_Has_def arc_T_def)
    moreover have "arc_inv cfg (call_addedFunc cfg key v c1)"
      using sz ok d live \<open>arc_live c1 \<le> cache_size cfg\<close> total by (auto simp: arc_inv_def)
    moreover have "arc_tight cfg (call_addedFunc cfg key v c1) = arc_tight cfg c1"
      by (simp add: arc_tight_def)
    ultimately show ?thesis using live by simp
  next
    case b1
    define p where "p = min (cache_size cfg)
                      (part c1 + max (arcList_Len (b2 c1) div arcList_Len (b1 c1)) 1)"
    define cs where "cs = setPart cfg c1 p"
    have sp: "set_place cfg c1 key v =
        (case replace cfg cs key of None \<Rightarrow> None
         | Some c2 \<Rightarrow> Some (call_addedFunc cfg key v
              (c2\<lparr>b1 := arcList_Remove key (b1 c2), t2 := arcList_PushFront key (t2 c2)\<rparr>)))"
      using b1 by (simp add: set_place_def arcList_Has_def arc_T_def cs_def p_def)
    have oks: "arc_lists_ok cs" using ok by (simp add: cs_def)
    obtain c2 where c2: "replace cfg cs key = Some c2" and r: "replaced cfg cs c2"
      using replace_effect[OF oks sz] by blast
    note s = replaced_summary[OF oks r]
    have k2: "key \<in> set (b1 c2)" using s(3) b1(2) by (auto simp: cs_def)
    define c' where "c' = c2\<lparr>b1 := arcList_Remove key (b1 c2), t2 := arcList_PushFront key (t2 c2)\<rparr>"
    have fs: "t1 c' = t1 c2" "t2 c' = arcList_PushFront key (t2 c2)"
      "b1 c' = arcList_Remove key (b1 c2)" "b2 c' = b2 c2" "items c' = items c2"
      by (simp_all add: c'_def)
    note m = ghost_b1_move[OF s(1) k2 fs(1-4)]
    have dd: "dom (items c') = arc_T c'"
      using s(2,6) d b1(1) m(2) by (auto simp: fs(5) cs_def)
    have l': "arc_live c' \<le> cache_size cfg"
      using m(3) s(7) live by (auto simp: cs_def isCacheFull_live split: if_splits)
    have t': "arc_total c' \<le> 2 * cache_size cfg" using m(4) s(8) total by (simp add: cs_def)
    have inv: "arc_inv cfg c'" using sz m(1) dd l' t' by (simp add: arc_inv_def)
    have tight: "arc_tight cfg c'" if "arc_tight cfg c1"
    proof -
      have "arc_B c1 \<noteq> {}" using b1(2) by (auto simp: arc_B_def)
      then have "arc_live c1 = cache_size cfg" and "arc_tb c1 \<le> cache_size cfg"
        using that by (auto simp: arc_tight_def)
      then show ?thesis using m(3,5) s(7,9)
        by (simp add: arc_tight_def cs_def isCacheFull_live)
    qed
    have it: "items c' key = items c1 key" using s(11)[of key] b1(1) by (simp add: fs(5) cs_def)
    have "arc_inv cfg (call_addedFunc cfg key v c')" using inv
      by (simp add: arc_inv_def)
    moreover have "arc_tight cfg (call_addedFunc cfg key v c') = arc_tight cfg c'"
      by (simp add: arc_tight_def)
    ultimately show ?thesis using sp c2 tight it m(2) by (simp add: c'_def[symmetric])
  next
    case b2
    define p where "p = max 0 (part c1 - max (arcList_Len (b1 c1) div arcList_Len (b2 c1)) 1)"
    define cs where "cs = setPart cfg c1 p"
    have sp: "set_place cfg c1 key v =
        (case replace cfg cs key of None \<Rightarrow> None
         | Some c2 \<Rightarrow> Some (call_addedFunc cfg key v
              (c2\<lparr>b2 := arcList_Remove key (b2 c2), t2 := arcList_PushFront key (t2 c2)\<rparr>)))"
      using b2 by (simp add: set_place_def arcList_Has_def arc_T_def cs_def p_def)
    have oks: "arc_lists_ok cs" using ok by (simp add: cs_def)
    obtain c2 where c2: "replace cfg cs key = Some c2" and r: "replaced cfg cs c2"
      using replace_effect[OF oks sz] by blast
    note s = replaced_summary[OF oks r]
    have k2: "key \<in> set (b2 c2)" using s(4) b2(3) by (auto simp: cs_def)
    define c' where "c' = c2\<lparr>b2 := arcList_Remove key (b2 c2), t2 := arcList_PushFront key (t2 c2)\<rparr>"
    have fs: "t1 c' = t1 c2" "t2 c' = arcList_PushFront key (t2 c2)"
      "b2 c' = arcList_Remove key (b2 c2)" "b1 c' = b1 c2" "items c' = items c2"
      by (simp_all add: c'_def)
    note m = ghost_b2_move[OF s(1) k2 fs(1-4)]
    have dd: "dom (items c') = arc_T c'"
      using s(2,6) d b2(1) m(2) by (auto simp: fs(5) cs_def)
    have l': "arc_live c' \<le> cache_size cfg"
      using m(3) s(7) live by (auto simp: cs_def isCacheFull_live split: if_splits)
    have t': "arc_total c' \<le> 2 * cache_size cfg" using m(4) s(8) total by (simp add: cs_def)
    have inv: "arc_inv cfg c'" using sz m(1) dd l' t' by (simp add: arc_inv_def)
    have tight: "arc_tight cfg c'" if "arc_tight cfg c1"
    proof -
      have "arc_B c1 \<noteq> {}" using b2(3) by (auto simp: arc_B_def)
      then have "arc_live c1 = cache_size cfg" and "arc_tb c1 \<le> cache_size cfg"
        using that by (auto simp: arc_tight_def)
      then show ?thesis using m(3,5) s(7,9)
        by (simp add: arc_tight_def cs_def isCacheFull_live)
    qed
    have it: "items c' key = items c1 key" using s(11)[of key] b2(1) by (simp add: fs(5) cs_def)
    have "arc_inv cfg (call_addedFunc cfg key v c')" using inv
      by (simp add: arc_inv_def)
    moreover have "arc_tight cfg (call_addedFunc cfg key v c') = arc_tight cfg c'"
      by (simp add: arc_tight_def)
    ultimately show ?thesis using sp c2 tight it m(2) by (simp add: c'_def[symmetric])
  next
    case new
    have sp: "set_place cfg c1 key v =
        (case set_make_room cfg c1 key of None \<Rightarrow> None
         | Some c3 \<Rightarrow> Some (call_addedFunc cfg key v (c3\<lparr>t1 := arcList_PushFront key (t1 c3)\<rparr>)))"
      using new by (simp add: set_place_def arcList_Has_def arc_T_def arc_B_def)
    obtain c3 where c3: "set_make_room cfg c1 key = Some c3" and room: "arc_room cfg key c3"
      and rt: "arc_tight cfg c1 \<longrightarrow> arc_room_tight cfg c3" and it3: "items c3 key = items c1 key"
      using set_make_room_effect[OF mid new] by blast
    define c' where "c' = c3\<lparr>t1 := arcList_PushFront key (t1 c3)\<rparr>"
    have fs: "t1 c' = arcList_PushFront key (t1 c3)" "t2 c' = t2 c3" "b1 c' = b1 c3" "b2 c' = b2 c3"
      "items c' = items c3" by (simp_all add: c'_def)
    have r3: "arc_lists_ok c3" "key \<notin> arc_T c3" "key \<notin> arc_B c3"
      "dom (items c3) = insert key (arc_T c3)" "arc_live c3 < cache_size cfg"
      "arc_total c3 < 2 * cache_size cfg" using room by (simp_all add: arc_room_def)
    note m = new_t1_move[OF r3(1-3) fs(1-4)]
    have inv: "arc_inv cfg c'" using sz m r3 by (simp add: arc_inv_def fs(5))
    have tight: "arc_tight cfg c'" if "arc_tight cfg c1"
      using rt that m by (auto simp: arc_tight_def arc_room_tight_def)
    have "arc_inv cfg (call_addedFunc cfg key v c')" using inv by (simp add: arc_inv_def)
    moreover have "arc_tight cfg (call_addedFunc cfg key v c') = arc_tight cfg c'"
      by (simp add: arc_tight_def)
    ultimately show ?thesis using sp c3 tight it3 m(2) by (simp add: c'_def[symmetric] fs(5))
  qed
qed

lemma set_entry_fields [simp]:
  "t1 (set_entry cfg now c key v) = t1 c" "t2 (set_entry cfg now c key v) = t2 c"
  "b1 (set_entry cfg now c key v) = b1 c" "b2 (set_entry cfg now c key v) = b2 c"
  "part (set_entry cfg now c key v) = part c" "arc_stats (set_entry cfg now c key v) = arc_stats c"
  "evicted_calls (set_entry cfg now c key v) = evicted_calls c"
  "added_calls (set_entry cfg now c key v) = added_calls c"
  "dom (items (set_entry cfg now c key v)) = insert key (dom (items c))"
  "k \<noteq> key \<Longrightarrow> items (set_entry cfg now c key v) k = items c k"
  by (simp_all add: set_entry_def Let_def)

lemma set_entry_mid:
  assumes "arc_inv cfg c"
  shows "arc_mid cfg key (set_entry cfg now c key v)"
    and "arc_tight cfg (set_entry cfg now c key v) = arc_tight cfg c"
  using assms
  by (simp_all add: arc_inv_def arc_mid_def arc_tight_def arc_lists_ok_def arc_abs_defs)

lemma ARC_set_effect:
  assumes inv: "arc_inv cfg c"
  shows "\<exists>c' e. ARC_set cfg now c key v = Some (c', e) \<and> arc_inv cfg c' \<and>
           (arc_tight cfg c \<longrightarrow> arc_tight cfg c') \<and> (e = None \<longrightarrow> key \<in> dom (items c'))"
proof (cases "case serializeFunc cfg of None \<Rightarrow> Inr v | Some f \<Rightarrow> f key v")
  case (Inl err)
  then show ?thesis using inv by (simp add: ARC_set_def)
next
  case (Inr v')
  note m = set_entry_mid[OF inv, where key=key and now=now and v=v']
  obtain c' where c': "set_place cfg (set_entry cfg now c key v') key v' = Some c'"
    and i: "arc_inv cfg c'" and k: "key \<in> arc_T c'"
    and t: "arc_tight cfg (set_entry cfg now c key v') \<longrightarrow> arc_tight cfg c'"
    using set_place_effect[OF m(1)] by blast
  have "key \<in> dom (items c')" using i k by (simp add: arc_inv_def)
  then show ?thesis using Inr c' i t m(2) by (simp add: ARC_set_def)
qed

lemma ARC_set_expiration_inv:
  "arc_inv cfg (ARC_set_expiration key t c) = arc_inv cfg c"
  "arc_tight cfg (ARC_set_expiration key t c) = arc_tight cfg c"
  by (auto simp: ARC_set_expiration_def arc_inv_def arc_tight_def split: option.splits)

text \<open>The moves of \<open>getValue\<close> and \<open>remove\<close>.\<close>

lemma promote_move:
  assumes ok: "arc_lists_ok c" and k: "key \<in> set (t1 c)"
    and f: "t1 c' = arcList_Remove key (t1 c)" "t2 c' = arcList_PushFront key (t2 c)"
           "b1 c' = b1 c" "b2 c' = b2 c"
  shows "arc_lists_ok c'" and "arc_T c' = arc_T c" and "arc_B c' = arc_B c"
    and "arc_live c' = arc_live c" and "arc_total c' = arc_total c"
    and "arc_tb c' = arc_tb c - 1" and "t2 c' = key # t2 c"
proof -
  have n: "key \<notin> set (t2 c)" "key \<notin> set (b1 c)" "key \<notin> set (b2 c)"
    using ok k unfolding arc_lists_ok_iff by blast+
  then show t2: "t2 c' = key # t2 c" by (simp add: f PushFront_new)
  show "arc_lists_ok c'" using ok[unfolded arc_lists_ok_iff] k n
    by (auto simp: arc_lists_ok_iff f(1,3,4) t2 set_Remove distinct_Remove)
  show "arc_T c' = arc_T c" using ok[unfolded arc_lists_ok_iff] k
    by (auto simp: arc_T_def f(1) t2 set_Remove)
  show "arc_B c' = arc_B c" by (simp add: arc_B_def f)
  show "arc_live c' = arc_live c" using k by (simp add: arc_live_def f(1) t2 Len_Remove)
  show "arc_total c' = arc_total c" using k by (simp add: arc_total_def f(1,3,4) t2 Len_Remove)
  show "arc_tb c' = arc_tb c - 1" using k by (simp add: arc_tb_def f(1,3) Len_Remove)
qed

lemma touch_move:
  assumes ok: "arc_lists_ok c" and k: "key \<in> set (t2 c)"
    and f: "t1 c' = t1 c" "t2 c' = arcList_MoveToFront key (t2 c)" "b1 c' = b1 c" "b2 c' = b2 c"
  shows "arc_lists_ok c'" and "arc_T c' = arc_T c" and "arc_B c' = arc_B c"
    and "arc_live c' = arc_live c" and "arc_total c' = arc_total c"
    and "arc_tb c' = arc_tb c"
proof -
  have l: "int (length (remove1 key (t2 c))) = int (length (t2 c)) - 1"
    using Len_Remove[OF k] by (simp add: arcList_Remove_def)
  show "arc_lists_ok c'" using ok[unfolded arc_lists_ok_iff] k
    by (auto simp: arc_lists_ok_iff f arcList_MoveToFront_def)
  show "arc_T c' = arc_T c" using ok[unfolded arc_lists_ok_iff] k
    by (auto simp: arc_T_def f arcList_MoveToFront_def)
  show "arc_B c' = arc_B c" by (simp add: arc_B_def f)
  show "arc_live c' = arc_live c" using l by (simp add: arc_live_def f arcList_MoveToFront_def)
  show "arc_total c' = arc_total c" using l by (simp add: arc_total_def f arcList_MoveToFront_def)
  show "arc_tb c' = arc_tb c" by (simp add: arc_tb_def f)
qed

lemma to_ghost_t1_move:
  assumes ok: "arc_lists_ok c" and k: "key \<in> set (t1 c)"
    and f: "t1 c' = arcList_Remove key (t1 c)" "t2 c' = t2 c"
           "b1 c' = arcList_PushFront key (b1 c)" "b2 c' = b2 c"
  shows "arc_lists_ok c'" and "arc_T c' = arc_T c - {key}"
    and "arc_live c' = arc_live c - 1" and "arc_total c' = arc_total c"
    and "arc_tb c' = arc_tb c" and "b1 c' = key # b1 c"
proof -
  have n: "key \<notin> set (t2 c)" "key \<notin> set (b1 c)" "key \<notin> set (b2 c)"
    using ok k unfolding arc_lists_ok_iff by blast+
  then show b1: "b1 c' = key # b1 c" by (simp add: f PushFront_new)
  show "arc_lists_ok c'" using ok[unfolded arc_lists_ok_iff] k n
    by (auto simp: arc_lists_ok_iff f(1,2,4) b1 set_Remove distinct_Remove)
  show "arc_T c' = arc_T c - {key}" using ok[unfolded arc_lists_ok_iff] k n
    by (auto simp: arc_T_def f(1,2) set_Remove)
  show "arc_live c' = arc_live c - 1" using k by (simp add: arc_live_def f(1,2) Len_Remove)
  show "arc_total c' = arc_total c" using k by (simp add: arc_total_def f(1,2,4) b1 Len_Remove)
  show "arc_tb c' = arc_tb c" using k by (simp add: arc_tb_def f(1) b1 Len_Remove)
qed

lemma to_ghost_t2_move:
  assumes ok: "arc_lists_ok c" and k: "key \<in> set (t2 c)"
    and f: "t1 c' = t1 c" "t2 c' = arcList_Remove key (t2 c)"
           "b1 c' = b1 c" "b2 c' = arcList_PushFront key (b2 c)"
  shows "arc_lists_ok c'" and "arc_T c' = arc_T c - {key}"
    and "arc_live c' = arc_live c - 1" and "arc_total c' = arc_total c"
    and "arc_tb c' = arc_tb c" and "b2 c' = key # b2 c"
proof -
  have n: "key \<notin> set (t1 c)" "key \<notin> set (b1 c)" "key \<notin> set (b2 c)"
    using ok k unfolding arc_lists_ok_iff by blast+
  then show b2: "b2 c' = key # b2 c" by (simp add: f PushFront_new)
  show "arc_lists_ok c'" using ok[unfolded arc_lists_ok_iff] k n
    by (auto simp: arc_lists_ok_iff f(1,2,3) b2 set_Remove distinct_Remove)
  show "arc_T c' = arc_T c - {key}" using ok[unfolded arc_lists_ok_iff] k n
    by (auto simp: arc_T_def f(1,2) set_Remove)
  show "arc_live c' = arc_live c - 1" using k by (simp add: arc_live_def f(1,2) Len_Remove)
  show "arc_total c' = arc_total c" using k by (simp add: arc_total_def f(1,2,3) b2 Len_Remove)
  show "arc_tb c' = arc_tb c" using k by (simp add: arc_tb_def f(1,3))
qed

text \<open>The five outcomes of \<open>getValue\<close>.\<close>

lemma getValue_hit_t1:
  assumes "key \<in> set (t1 c)" "items c key = Some item" "\<not> IsExpired now item None"
  shows "ARC_getValue cfg now c key onLoad =
           Some (ARC_count_hit onLoad
                   (c\<lparr>t1 := arcList_Remove key (t1 c), t2 := arcList_PushFront key (t2 c)\<rparr>),
                 Inr (item_value item))"
  using assms by (simp add: ARC_getValue_def getValue_t1_def arcList_Has_def)

lemma getValue_expired_t1:
  assumes "arc_lists_ok c" "key \<in> set (t1 c)" "items c key = Some item" "IsExpired now item None"
  shows "ARC_getValue cfg now c key onLoad =
           Some (ARC_count_miss onLoad
                   (call_evictedFunc cfg (item_key item) (item_value item)
                      (c\<lparr>t1 := arcList_Remove key (t1 c), items := (items c)(key := None),
                         b1 := arcList_PushFront key (b1 c)\<rparr>)),
                 Inl KeyNotFoundError)"
proof -
  have "key \<notin> set (t2 c)" using assms(1,2) unfolding arc_lists_ok_iff by blast
  then show ?thesis using assms
    by (simp add: ARC_getValue_def getValue_t1_def getValue_t2_def arcList_Has_def)
qed

lemma getValue_hit_t2:
  assumes "key \<notin> set (t1 c)" "key \<in> set (t2 c)" "items c key = Some item"
    "\<not> IsExpired now item None"
  shows "ARC_getValue cfg now c key onLoad =
           Some (ARC_count_hit onLoad (c\<lparr>t2 := arcList_MoveToFront key (t2 c)\<rparr>),
                 Inr (item_value item))"
  using assms by (simp add: ARC_getValue_def getValue_t1_def getValue_t2_def arcList_Has_def)

lemma getValue_expired_t2:
  assumes "key \<notin> set (t1 c)" "key \<in> set (t2 c)" "items c key = Some item"
    "IsExpired now item None"
  shows "ARC_getValue cfg now c key onLoad =
           Some (ARC_count_miss onLoad
                   (call_evictedFunc cfg (item_key item) (item_value item)
                      (c\<lparr>items := (items c)(key := None), t2 := arcList_Remove key (t2 c),
                         b2 := arcList_PushFront key (b2 c)\<rparr>)),
                 Inl KeyNotFoundError)"
  using assms by (simp add: ARC_getValue_def getValue_t1_def getValue_t2_def arcList_Has_def)

lemma getValue_absent:
  assumes "key \<notin> set (t1 c)" "key \<notin> set (t2 c)"
  shows "ARC_getValue cfg now c key onLoad = Some (ARC_count_miss onLoad c, Inl KeyNotFoundError)"
  using assms by (simp add: ARC_getValue_def getValue_t1_def getValue_t2_def arcList_Has_def)

lemma count_fields [simp]:
  "items (ARC_count_hit b c) = items c" "t1 (ARC_count_hit b c) = t1 c"
  "t2 (ARC_count_hit b c) = t2 c" "b1 (ARC_count_hit b c) = b1 c" "b2 (ARC_count_hit b c) = b2 c"
  "part (ARC_count_hit b c) = part c" "evicted_calls (ARC_count_hit b c) = evicted_calls c"
  "added_calls (ARC_count_hit b c) = added_calls c"
  "items (ARC_count_miss b c) = items c" "t1 (ARC_count_miss b c) = t1 c"
  "t2 (ARC_count_miss b c) = t2 c" "b1 (ARC_count_miss b c) = b1 c" "b2 (ARC_count_miss b c) = b2 c"
  "part (ARC_count_miss b c) = part c" "evicted_calls (ARC_count_miss b c) = evicted_calls c"
  "added_calls (ARC_count_miss b c) = added_calls c"
  by (simp_all add: ARC_count_hit_def ARC_count_miss_def)

lemma arc_inv_fields:
  assumes "arc_lists_ok c'" "dom (items c') = arc_T c'" "arc_live c' \<le> arc_live c"
    "arc_total c' \<le> arc_total c" "arc_inv cfg c"
  shows "arc_inv cfg c'"
  using assms by (simp add: arc_inv_def)

lemma ARC_getValue_effect:
  assumes inv: "arc_inv cfg c"
  shows "\<exists>c' r. ARC_getValue cfg now c key onLoad = Some (c', r) \<and> arc_inv cfg c' \<and>
           (\<not> expired_entry now c key \<longrightarrow> arc_tight cfg c \<longrightarrow> arc_tight cfg c') \<and>
           (\<forall>e. r = Inl e \<longrightarrow> e = KeyNotFoundError \<and> key \<notin> dom (items c'))"
proof -
  have ok: "arc_lists_ok c" and d: "dom (items c) = arc_T c" using inv by (simp_all add: arc_inv_def)
  consider (t1) "key \<in> set (t1 c)" | (t2) "key \<notin> set (t1 c)" "key \<in> set (t2 c)"
    | (none) "key \<notin> set (t1 c)" "key \<notin> set (t2 c)" by blast
  then show ?thesis
  proof cases
    case t1
    then obtain item where it: "items c key = Some item" using d by (auto simp: arc_T_def)
    show ?thesis
    proof (cases "IsExpired now item None")
      case False
      define c' where "c' = ARC_count_hit onLoad
                   (c\<lparr>t1 := arcList_Remove key (t1 c), t2 := arcList_PushFront key (t2 c)\<rparr>)"
      have fs: "t1 c' = arcList_Remove key (t1 c)" "t2 c' = arcList_PushFront key (t2 c)"
        "b1 c' = b1 c" "b2 c' = b2 c" "items c' = items c" by (simp_all add: c'_def)
      note m = promote_move[OF ok t1 fs(1-4)]
      have "arc_inv cfg c'" using m d inv by (intro arc_inv_fields[of c' c]) (simp_all add: fs(5))
      moreover have "arc_tight cfg c \<longrightarrow> arc_tight cfg c'" using m by (auto simp: arc_tight_def)
      ultimately show ?thesis using getValue_hit_t1[OF t1 it False, of cfg onLoad]
        by (simp add: c'_def)
    next
      case True
      define c' where "c' = ARC_count_miss onLoad
                   (call_evictedFunc cfg (item_key item) (item_value item)
                      (c\<lparr>t1 := arcList_Remove key (t1 c), items := (items c)(key := None),
                         b1 := arcList_PushFront key (b1 c)\<rparr>))"
      have fs: "t1 c' = arcList_Remove key (t1 c)" "t2 c' = t2 c"
        "b1 c' = arcList_PushFront key (b1 c)" "b2 c' = b2 c" "items c' = (items c)(key := None)"
        by (simp_all add: c'_def)
      note m = to_ghost_t1_move[OF ok t1 fs(1-4)]
      have "arc_inv cfg c'" using m d inv by (intro arc_inv_fields[of c' c]) (auto simp: fs(5))
      moreover have "expired_entry now c key" using it True by (simp add: expired_entry_def)
      moreover have "key \<notin> dom (items c')" by (simp add: fs(5))
      ultimately show ?thesis using getValue_expired_t1[OF ok t1 it True, of cfg onLoad]
        by (simp add: c'_def)
    qed
  next
    case t2
    then obtain item where it: "items c key = Some item" using d by (auto simp: arc_T_def)
    show ?thesis
    proof (cases "IsExpired now item None")
      case False
      define c' where "c' = ARC_count_hit onLoad (c\<lparr>t2 := arcList_MoveToFront key (t2 c)\<rparr>)"
      have fs: "t1 c' = t1 c" "t2 c' = arcList_MoveToFront key (t2 c)"
        "b1 c' = b1 c" "b2 c' = b2 c" "items c' = items c" by (simp_all add: c'_def)
      note m = touch_move[OF ok t2(2) fs(1-4)]
      have "arc_inv cfg c'" using m d inv by (intro arc_inv_fields[of c' c]) (simp_all add: fs(5))
      moreover have "arc_tight cfg c \<longrightarrow> arc_tight cfg c'" using m by (auto simp: arc_tight_def)
      ultimately show ?thesis using getValue_hit_t2[OF t2 it False, of cfg onLoad]
        by (simp add: c'_def)
    next
      case True
      define c' where "c' = ARC_count_miss onLoad
                   (call_evictedFunc cfg (item_key item) (item_value item)
                      (c\<lparr>items := (items c)(key := None), t2 := arcList_Remove key (t2 c),
                         b2 := arcList_PushFront key (b2 c)\<rparr>))"
      have fs: "t1 c' = t1 c" "t2 c' = arcList_Remove key (t2 c)"
        "b1 c' = b1 c" "b2 c' = arcList_PushFront key (b2 c)" "items c' = (items c)(key := None)"
        by (simp_all add: c'_def)
      note m = to_ghost_t2_move[OF ok t2(2) fs(1-4)]
      have "arc_inv cfg c'" using m d inv by (intro arc_inv_fields[of c' c]) (auto simp: fs(5))
      moreover have "expired_entry now c key" using it True by (simp add: expired_entry_def)
      moreover have "key \<notin> dom (items c')" by (simp add: fs(5))
      ultimately show ?thesis using getValue_expired_t2[OF t2 it True, of cfg onLoad]
        by (simp add: c'_def)
    qed
  next
    case none
    have "arc_inv cfg (ARC_count_miss onLoad c)" "arc_tight cfg (ARC_count_miss onLoad c) = arc_tight cfg c"
      using inv arc_inv_cong[of "ARC_count_miss onLoad c" c cfg] by simp_all
    moreover have "key \<notin> dom (items c)" using none d by (simp add: arc_T_def)
    ultimately show ?thesis using getValue_absent[OF none, of cfg now onLoad] by auto
  qed
qed

lemma remove_t1:
  assumes "key \<in> set (t1 c)" "items c key = Some item"
  shows "ARC_remove cfg c key =
           Some (call_evictedFunc cfg key (item_value item)
                   (c\<lparr>t1 := arcList_Remove key (t1 c), items := (items c)(key := None),
                      b1 := arcList_PushFront key (b1 c)\<rparr>), True)"
  using assms by (simp add: ARC_remove_def arcList_Has_def call_evictedFunc_def Let_def)

lemma remove_t2:
  assumes "key \<notin> set (t1 c)" "key \<in> set (t2 c)" "items c key = Some item"
  shows "ARC_remove cfg c key =
           Some (call_evictedFunc cfg key (item_value item)
                   (c\<lparr>t2 := arcList_Remove key (t2 c), items := (items c)(key := None),
                      b2 := arcList_PushFront key (b2 c)\<rparr>), True)"
  using assms by (simp add: ARC_remove_def arcList_Has_def call_evictedFunc_def Let_def)

lemma remove_absent:
  assumes "key \<notin> set (t1 c)" "key \<notin> set (t2 c)"
  shows "ARC_remove cfg c key = Some (c, False)"
  using assms by (simp add: ARC_remove_def arcList_Has_def)

lemma ARC_remove_effect:
  assumes inv: "arc_inv cfg c"
  shows "\<exists>c' r. ARC_remove cfg c key = Some (c', r) \<and> arc_inv cfg c' \<and>
           (key \<notin> arc_T c \<longrightarrow> c' = c)"
proof -
  have ok: "arc_lists_ok c" and d: "dom (items c) = arc_T c" using inv by (simp_all add: arc_inv_def)
  consider (t1) "key \<in> set (t1 c)" | (t2) "key \<notin> set (t1 c)" "key \<in> set (t2 c)"
    | (none) "key \<notin> set (t1 c)" "key \<notin> set (t2 c)" by blast
  then show ?thesis
  proof cases
    case t1
    then obtain item where it: "items c key = Some item" using d by (auto simp: arc_T_def)
    define c' where "c' = call_evictedFunc cfg key (item_value item)
                   (c\<lparr>t1 := arcList_Remove key (t1 c), items := (items c)(key := None),
                      b1 := arcList_PushFront key (b1 c)\<rparr>)"
    have fs: "t1 c' = arcList_Remove key (t1 c)" "t2 c' = t2 c"
      "b1 c' = arcList_PushFront key (b1 c)" "b2 c' = b2 c" "items c' = (items c)(key := None)"
      by (simp_all add: c'_def)
    note m = to_ghost_t1_move[OF ok t1 fs(1-4)]
    have "arc_inv cfg c'" using m d inv by (intro arc_inv_fields[of c' c]) (auto simp: fs(5))
    then show ?thesis using remove_t1[OF t1 it, of cfg] t1 by (auto simp: c'_def arc_T_def)
  next
    case t2
    then obtain item where it: "items c key = Some item" using d by (auto simp: arc_T_def)
    define c' where "c' = call_evictedFunc cfg key (item_value item)
                   (c\<lparr>t2 := arcList_Remove key (t2 c), items := (items c)(key := None),
                      b2 := arcList_PushFront key (b2 c)\<rparr>)"
    have fs: "t1 c' = t1 c" "t2 c' = arcList_Remove key (t2 c)"
      "b1 c' = b1 c" "b2 c' = arcList_PushFront key (b2 c)" "items c' = (items c)(key := None)"
      by (simp_all add: c'_def)
    note m = to_ghost_t2_move[OF ok t2(2) fs(1-4)]
    have "arc_inv cfg c'" using m d inv by (intro arc_inv_fields[of c' c]) (auto simp: fs(5))
    then show ?thesis using remove_t2[OF t2 it, of cfg] t2 by (auto simp: c'_def arc_T_def)
  next
    case none
    then show ?thesis using inv remove_absent[OF none, of cfg] by auto
  qed
qed

lemma ARC_get_effect:
  assumes inv: "arc_inv cfg c"
  shows "\<exists>c' r. ARC_get cfg now c key onLoad = Some (c', r) \<and> arc_inv cfg c' \<and>
           (\<not> expired_entry now c key \<longrightarrow> arc_tight cfg c \<longrightarrow> arc_tight cfg c')"
proof -
  obtain c' r where g: "ARC_getValue cfg now c key onLoad = Some (c', r)" and i: "arc_inv cfg c'"
    and t: "\<not> expired_entry now c key \<longrightarrow> arc_tight cfg c \<longrightarrow> arc_tight cfg c'"
    using ARC_getValue_effect[OF inv] by blast
  show ?thesis using g i t by (cases r) (auto simp: ARC_get_def split: option.splits)
qed

lemma ARC_load_cb_effect:
  assumes inv: "arc_inv cfg c"
  shows "\<exists>c' r. ARC_load_cb cfg now key v ttl e c = Some (c', r) \<and> arc_inv cfg c' \<and>
           (arc_tight cfg c \<longrightarrow> arc_tight cfg c')"
proof (cases e)
  case (Some err)
  then show ?thesis using inv by (simp add: ARC_load_cb_def)
next
  case None
  obtain c' e' where s: "ARC_set cfg now c key v = Some (c', e')" and i: "arc_inv cfg c'"
    and t: "arc_tight cfg c \<longrightarrow> arc_tight cfg c'"
    using ARC_set_effect[OF inv] by blast
  show ?thesis using None s i t
    by (cases e'; cases ttl) (simp_all add: ARC_load_cb_def ARC_set_expiration_inv)
qed

lemma ARC_getWithLoader_effect:
  assumes inv: "arc_inv cfg c"
  shows "\<exists>c' r. ARC_getWithLoader cfg now c ctx key isWait = Some (c', r) \<and> arc_inv cfg c' \<and>
           (arc_tight cfg c \<longrightarrow> arc_tight cfg c')"
proof (cases "loaderExpireFunc cfg")
  case None
  then show ?thesis using inv by (simp add: ARC_getWithLoader_def)
next
  case (Some f)
  show ?thesis
  proof (cases "f ctx key")
    case (LoaderReturns v ttl e)
    obtain c' r where s: "ARC_load_cb cfg now key v ttl e c = Some (c', r)" and i: "arc_inv cfg c'"
      and t: "arc_tight cfg c \<longrightarrow> arc_tight cfg c'"
      using ARC_load_cb_effect[OF inv] by blast
    then show ?thesis using Some LoaderReturns
      by (simp add: ARC_getWithLoader_def load_def Group_Do_def)
  next
    case (LoaderPanics r)
    then show ?thesis using Some inv by (simp add: ARC_getWithLoader_def load_def Group_Do_def)
  qed
qed

lemma ARC_Get_effect:
  assumes inv: "arc_inv cfg c"
  shows "\<exists>c' r. ARC_GetWithContext cfg now now' c ctx key = Some (c', r) \<and> arc_inv cfg c' \<and>
           (\<not> expired_entry now c key \<longrightarrow> arc_tight cfg c \<longrightarrow> arc_tight cfg c')"
    and "\<exists>c' r. ARC_GetIFPresentWithContext cfg now now' c ctx key = Some (c', r) \<and> arc_inv cfg c' \<and>
           (\<not> expired_entry now c key \<longrightarrow> arc_tight cfg c \<longrightarrow> arc_tight cfg c')"
proof -
  obtain c1 r1 where g: "ARC_get cfg now c key False = Some (c1, r1)" and i: "arc_inv cfg c1"
    and t: "\<not> expired_entry now c key \<longrightarrow> arc_tight cfg c \<longrightarrow> arc_tight cfg c1"
    using ARC_get_effect[OF inv] by blast
  have l: "\<exists>c' r. ARC_getWithLoader cfg now' c1 ctx key w = Some (c', r) \<and> arc_inv cfg c' \<and>
           (arc_tight cfg c1 \<longrightarrow> arc_tight cfg c')" for w
    by (rule ARC_getWithLoader_effect[OF i])
  show "\<exists>c' r. ARC_GetWithContext cfg now now' c ctx key = Some (c', r) \<and> arc_inv cfg c' \<and>
           (\<not> expired_entry now c key \<longrightarrow> arc_tight cfg c \<longrightarrow> arc_tight cfg c')"
  proof (cases r1)
    case (Inl err)
    then show ?thesis using g i t l[of True] by (auto simp: ARC_GetWithContext_def)
  next
    case (Inr v)
    then show ?thesis using g i t by (simp add: ARC_GetWithContext_def)
  qed
  show "\<exists>c' r. ARC_GetIFPresentWithContext cfg now now' c ctx key = Some (c', r) \<and> arc_inv cfg c' \<and>
           (\<not> expired_entry now c key \<longrightarrow> arc_tight cfg c \<longrightarrow> arc_tight cfg c')"
  proof (cases r1)
    case (Inl err)
    then show ?thesis using g i t l[of False] by (auto simp: ARC_GetIFPresentWithContext_def)
  next
    case (Inr v)
    then show ?thesis using g i t by (simp add: ARC_GetIFPresentWithContext_def)
  qed
qed

lemma newARC_inv:
  assumes "0 < cache_size cfg"
  shows "arc_inv cfg newARC" "arc_tight cfg newARC"
  using assms by (simp_all add: arc_inv_def arc_tight_def newARC_def arc_lists_ok_def arc_abs_defs)

lemma ARC_Purge_inv:
  assumes "arc_inv cfg c"
  shows "arc_inv cfg (ARC_Purge cfg c)" "arc_tight cfg (ARC_Purge cfg c)"
  using assms by (simp_all add: arc_inv_def arc_tight_def ARC_Purge_def arc_lists_ok_def arc_abs_defs)

lemma ARC_step_effect:
  assumes inv: "arc_inv cfg c"
  shows "\<exists>c'. ARC_step cfg now now' c op = Some c' \<and> arc_inv cfg c' \<and>
           (\<not> ARC_takes_out now c op \<longrightarrow> arc_tight cfg c \<longrightarrow> arc_tight cfg c')"
proof (cases op)
  case (OpSet k v)
  then show ?thesis using ARC_set_effect[OF inv, of now k v]
    by (auto simp: ARC_step_def ARC_Set_def)
next
  case (OpSetWithExpire k v d)
  obtain c' e where s: "ARC_set cfg now c k v = Some (c', e)" and i: "arc_inv cfg c'"
    and t: "arc_tight cfg c \<longrightarrow> arc_tight cfg c'"
    using ARC_set_effect[OF inv] by blast
  show ?thesis using OpSetWithExpire s i t
    by (cases e) (simp_all add: ARC_step_def ARC_SetWithExpire_def ARC_set_expiration_inv)
next
  case (OpGet ctx k)
  then show ?thesis using ARC_Get_effect(1)[OF inv, of now now' ctx k]
    by (auto simp: ARC_step_def ARC_takes_out_def)
next
  case (OpGetIFPresent ctx k)
  then show ?thesis using ARC_Get_effect(2)[OF inv, of now now' ctx k]
    by (auto simp: ARC_step_def ARC_takes_out_def)
next
  case (OpRemove k)
  then show ?thesis using ARC_remove_effect[OF inv, of k]
    by (auto simp: ARC_step_def ARC_Remove_def ARC_takes_out_def arc_T_def)
next
  case OpPurge
  then show ?thesis using ARC_Purge_inv[OF inv]
    by (simp add: ARC_step_def)
qed

lemma ARC_run_effect:
  assumes "arc_inv cfg c"
  shows "\<exists>c'. ARC_run cfg c ops = Some c' \<and> arc_inv cfg c' \<and>
           (ARC_run_keeps cfg c ops \<longrightarrow> arc_tight cfg c \<longrightarrow> arc_tight cfg c')"
  using assms
proof (induction ops arbitrary: c)
  case Nil
  then show ?case by simp
next
  case (Cons a ops)
  obtain now now' op where a: "a = (now, now', op)" by (cases a) auto
  obtain c1 where s: "ARC_step cfg now now' c op = Some c1" and i: "arc_inv cfg c1"
    and t: "\<not> ARC_takes_out now c op \<longrightarrow> arc_tight cfg c \<longrightarrow> arc_tight cfg c1"
    using ARC_step_effect[OF Cons.prems] by blast
  from Cons.IH[OF i] obtain c' where r: "ARC_run cfg c1 ops = Some c'" and i': "arc_inv cfg c'"
    and t': "ARC_run_keeps cfg c1 ops \<longrightarrow> arc_tight cfg c1 \<longrightarrow> arc_tight cfg c'" by blast
  show ?case using a s r i' t t' by simp
qed

text \<open>
  C2. After any sequence of public operations from a fresh cache of a size above zero
  (the only sizes \<open>Build\<close> accepts for ARC), no operation has panicked, the live lists
  hold at most \<open>size\<close> keys and the four lists together at most \<open>2 * size\<close>.
\<close>

theorem ARC_live_and_total_bounds:
  assumes "0 < cache_size cfg"
  shows "\<exists>c. ARC_run cfg newARC ops = Some c \<and>
           arcList_Len (t1 c) + arcList_Len (t2 c) \<le> cache_size cfg \<and>
           arcList_Len (t1 c) + arcList_Len (t2 c) + arcList_Len (b1 c) + arcList_Len (b2 c)
             \<le> 2 * cache_size cfg"
proof -
  obtain c where "ARC_run cfg newARC ops = Some c" and "arc_inv cfg c"
    using ARC_run_effect[OF newARC_inv(1)[OF assms]] by blast
  then show ?thesis by (auto simp: arc_inv_def arc_abs_defs arcList_Len_def)
qed

text \<open>
  C1, amended. Along a run from a fresh cache in which no step takes a live entry out
  (no \<open>Remove\<close> of a live key, no read of an expired entry), T1 and B1 together hold at
  most \<open>size\<close> keys; after any run at all they hold at most \<open>2 * size\<close>.
\<close>

theorem ARC_t1_b1_bound:
  assumes "0 < cache_size cfg" and "ARC_run cfg newARC ops = Some c"
  shows "(ARC_run_keeps cfg newARC ops \<longrightarrow>
            arcList_Len (t1 c) + arcList_Len (b1 c) \<le> cache_size cfg) \<and>
         arcList_Len (t1 c) + arcList_Len (b1 c) \<le> 2 * cache_size cfg"
proof -
  have i: "arc_inv cfg c"
    and t: "ARC_run_keeps cfg newARC ops \<longrightarrow> arc_tight cfg c"
    using ARC_run_effect[OF newARC_inv(1)[OF assms(1)], of ops] assms(2) newARC_inv(2)[OF assms(1)]
    by auto
  have "arcList_Len (t1 c) + arcList_Len (b1 c) \<le> 2 * cache_size cfg"
    using i by (simp add: arc_inv_def arc_abs_defs arcList_Len_def)
  moreover have "arcList_Len (t1 c) + arcList_Len (b1 c) \<le> cache_size cfg"
    if "ARC_run_keeps cfg newARC ops"
    using t that by (simp add: arc_tight_def arc_abs_defs arcList_Len_def)
  ultimately show ?thesis by blast
qed

text \<open>The bounds of C2 and of C1 on the example run, which evicts twice and meets a ghost.\<close>

theorem ARC_live_and_total_bounds_witness:
  "0 < cache_size arc_example_cfg \<and>
   (\<exists>c. ARC_run arc_example_cfg newARC arc_example_run = Some c \<and>
      arcList_Len (t1 c) + arcList_Len (t2 c) \<le> cache_size arc_example_cfg \<and>
      arcList_Len (t1 c) + arcList_Len (t2 c) + arcList_Len (b1 c) + arcList_Len (b2 c)
        \<le> 2 * cache_size arc_example_cfg)"
  using ARC_live_and_total_bounds[of arc_example_cfg arc_example_run]
  by (simp add: arc_example_cfg_def)

text \<open>
  Against C1 as stated: with size 2, \<open>Set 1; Set 2; Remove 1; Set 3\<close> leaves T1 = [3, 2]
  and B1 = [1], three keys. After the \<open>Remove\<close> the live lists are not full, and \<open>set\<close>
  trims B1 only when they are.
\<close>

theorem ARC_t1_b1_bound_counterexample:
  "map_option t1 (ARC_run arc_example_cfg newARC arc_remove_run) = Some [3, 2] \<and>
   map_option b1 (ARC_run arc_example_cfg newARC arc_remove_run) = Some [1] \<and>
   \<not> arcList_Len [3, 2 :: nat] + arcList_Len [1 :: nat] \<le> cache_size arc_example_cfg"
  by code_simp

theorem ARC_t1_b1_bound_witness:
  "0 < cache_size arc_example_cfg \<and> ARC_run_keeps arc_example_cfg newARC arc_example_run \<and>
   (\<exists>c. ARC_run arc_example_cfg newARC arc_example_run = Some c \<and>
      arcList_Len (t1 c) + arcList_Len (b1 c) \<le> cache_size arc_example_cfg)"
proof -
  have sz: "0 < cache_size arc_example_cfg" by (simp add: arc_example_cfg_def)
  have k: "ARC_run_keeps arc_example_cfg newARC arc_example_run"
    by code_simp
  obtain c where r: "ARC_run arc_example_cfg newARC arc_example_run = Some c"
    using ARC_run_effect[OF newARC_inv(1)[OF sz]] by blast
  show ?thesis using ARC_t1_b1_bound[OF sz r] sz k r by simp
qed

text \<open>What the write path leaves alone: counters, and every entry other than the one written.\<close>

lemma map_le_drop: "m(x := None) \<subseteq>\<^sub>m m"
  by (simp add: map_le_def)

lemma replace_keeps:
  assumes "replace cfg c key = Some c'"
  shows "arc_stats c' = arc_stats c \<and> added_calls c' = added_calls c \<and> part c' = part c \<and>
    items c' \<subseteq>\<^sub>m items c"
  using assms
  by (auto simp: replace_def evict_t1_def evict_t2_def map_le_drop split: if_splits option.splits prod.splits)

lemma set_make_room_keeps:
  assumes "set_make_room cfg c key = Some c'"
  shows "arc_stats c' = arc_stats c \<and> added_calls c' = added_calls c \<and> part c' = part c \<and>
    items c' \<subseteq>\<^sub>m items c"
  using assms
  by (auto simp: set_make_room_def Let_def map_le_drop dest!: replace_keeps split: if_splits option.splits prod.splits)

lemma set_place_keeps:
  assumes "set_place cfg c key v = Some c'"
  shows "arc_stats c' = arc_stats c \<and> items c' \<subseteq>\<^sub>m items c \<and>
    added_calls c' = added_calls c @ (if addedFunc cfg then [(key, v)] else [])"
  using assms
  by (auto simp: set_place_def call_addedFunc_def
      dest!: replace_keeps set_make_room_keeps split: if_splits option.splits prod.splits)

lemma keys_ok_le: "arc_keys_ok c \<Longrightarrow> items c' \<subseteq>\<^sub>m items c \<Longrightarrow> arc_keys_ok c'"
  unfolding arc_keys_ok_def map_le_def by (metis domI)

lemma set_entry_keys_ok: "arc_keys_ok c \<Longrightarrow> arc_keys_ok (set_entry cfg now c key v)"
  by (auto simp: arc_keys_ok_def set_entry_def Let_def split: option.splits)

lemma ARC_set_keeps:
  assumes "ARC_set cfg now c key v = Some (c', e)"
  shows "arc_stats c' = arc_stats c" and "arc_keys_ok c \<Longrightarrow> arc_keys_ok c'"
proof -
  show "arc_stats c' = arc_stats c" using assms
    by (auto simp: ARC_set_def dest!: set_place_keeps split: sum.splits)
  show "arc_keys_ok c'" if ok: "arc_keys_ok c"
  proof (cases "case serializeFunc cfg of None \<Rightarrow> Inr v | Some f \<Rightarrow> f key v")
    case (Inl err)
    then show ?thesis using assms ok by (simp add: ARC_set_def)
  next
    case (Inr v')
    then have "set_place cfg (set_entry cfg now c key v') key v' = Some c'"
      using assms by (auto simp: ARC_set_def)
    then have "items c' \<subseteq>\<^sub>m items (set_entry cfg now c key v')"
      by (rule set_place_keeps[THEN conjunct2, THEN conjunct1])
    then show ?thesis by (rule keys_ok_le[OF set_entry_keys_ok[OF ok]])
  qed
qed

lemma ARC_set_expiration_keeps:
  "arc_stats (ARC_set_expiration key t c) = arc_stats c"
  "arc_keys_ok c \<Longrightarrow> arc_keys_ok (ARC_set_expiration key t c)"
  by (auto simp: ARC_set_expiration_def arc_keys_ok_def split: option.splits)

lemma ARC_getValue_items:
  assumes "ARC_getValue cfg now c key onLoad = Some (c', r)"
  shows "items c' \<subseteq>\<^sub>m items c"
  using assms
  by (auto simp: ARC_getValue_def getValue_t1_def getValue_t2_def Let_def map_le_drop
      split: if_splits option.splits prod.splits)

lemma ARC_remove_items:
  assumes "ARC_remove cfg c key = Some (c', r)"
  shows "items c' \<subseteq>\<^sub>m items c"
  using assms
  by (auto simp: ARC_remove_def Let_def map_le_drop split: if_splits option.splits)

lemma ARC_getWithLoader_keeps:
  assumes "ARC_getWithLoader cfg now c ctx key w = Some (c', r)"
  shows "arc_stats c' = arc_stats c" and "arc_keys_ok c \<Longrightarrow> arc_keys_ok c'"
  using assms
  by (auto simp: ARC_getWithLoader_def load_def Group_Do_def ARC_load_cb_def ARC_set_expiration_keeps
      dest: ARC_set_keeps split: option.splits loader_result.splits prod.splits)

lemma ARC_get_items:
  assumes "ARC_get cfg now c key onLoad = Some (c', r)"
  shows "items c' \<subseteq>\<^sub>m items c"
  using assms
  by (auto simp: ARC_get_def dest!: ARC_getValue_items split: option.splits sum.splits prod.splits)

lemma ARC_Get_keys_ok:
  assumes "arc_keys_ok c"
  shows "ARC_GetWithContext cfg now now' c ctx key = Some (c', r) \<Longrightarrow> arc_keys_ok c'"
    and "ARC_GetIFPresentWithContext cfg now now' c ctx key = Some (c', r) \<Longrightarrow> arc_keys_ok c'"
proof -
  have a: "arc_keys_ok c'" if g: "ARC_get cfg now c key False = Some (c1, r1)"
    and l: "c' = c1 \<or> ARC_getWithLoader cfg now' c1 ctx key w = Some (c', r)" for c1 r1 w
  proof -
    have k1: "arc_keys_ok c1" by (rule keys_ok_le[OF assms ARC_get_items[OF g]])
    from l show ?thesis
    proof
      assume "c' = c1" then show ?thesis using k1 by simp
    next
      assume "ARC_getWithLoader cfg now' c1 ctx key w = Some (c', r)"
      then show ?thesis using k1 by (rule ARC_getWithLoader_keeps(2))
    qed
  qed
  show "arc_keys_ok c'" if "ARC_GetWithContext cfg now now' c ctx key = Some (c', r)"
  proof (cases "ARC_get cfg now c key False")
    case None
    then show ?thesis using that by (simp add: ARC_GetWithContext_def)
  next
    case (Some p)
    obtain c1 r1 where p: "p = (c1, r1)" by (cases p) auto
    have "c' = c1 \<or> ARC_getWithLoader cfg now' c1 ctx key True = Some (c', r)"
      using that Some p by (auto simp: ARC_GetWithContext_def split: sum.splits if_splits)
    then show ?thesis using a[of c1 r1 True] Some p by simp
  qed
  show "arc_keys_ok c'" if "ARC_GetIFPresentWithContext cfg now now' c ctx key = Some (c', r)"
  proof (cases "ARC_get cfg now c key False")
    case None
    then show ?thesis using that by (simp add: ARC_GetIFPresentWithContext_def)
  next
    case (Some p)
    obtain c1 r1 where p: "p = (c1, r1)" by (cases p) auto
    have "c' = c1 \<or> ARC_getWithLoader cfg now' c1 ctx key False = Some (c', r)"
      using that Some p by (auto simp: ARC_GetIFPresentWithContext_def split: sum.splits if_splits)
    then show ?thesis using a[of c1 r1 False] Some p by simp
  qed
qed

lemma ARC_step_keys_ok:
  assumes "ARC_step cfg now now' c op = Some c'" "arc_keys_ok c"
  shows "arc_keys_ok c'"
proof (cases op)
  case (OpSet k v)
  then show ?thesis using assms by (auto simp: ARC_step_def ARC_Set_def dest: ARC_set_keeps(2))
next
  case (OpSetWithExpire k v d)
  obtain c1 e where s: "ARC_set cfg now c k v = Some (c1, e)"
    using assms(1) OpSetWithExpire by (auto simp: ARC_step_def ARC_SetWithExpire_def split: option.splits)
  have "arc_keys_ok c1" using ARC_set_keeps(2)[OF s assms(2)] .
  then show ?thesis using assms(1) OpSetWithExpire s
    by (cases e) (auto simp: ARC_step_def ARC_SetWithExpire_def ARC_set_expiration_keeps)
next
  case (OpGet ctx k)
  then show ?thesis using assms ARC_Get_keys_ok(1)[OF assms(2), of cfg now now' ctx k c']
    by (auto simp: ARC_step_def)
next
  case (OpGetIFPresent ctx k)
  then show ?thesis using assms ARC_Get_keys_ok(2)[OF assms(2), of cfg now now' ctx k c']
    by (auto simp: ARC_step_def)
next
  case (OpRemove k)
  then show ?thesis using assms
    by (auto simp: ARC_step_def ARC_Remove_def dest!: ARC_remove_items dest: keys_ok_le)
next
  case OpPurge
  then show ?thesis using assms by (auto simp: ARC_step_def ARC_Purge_def arc_keys_ok_def)
qed

lemma ARC_run_keys_ok:
  assumes "ARC_run cfg c ops = Some c'" "arc_keys_ok c"
  shows "arc_keys_ok c'"
  using assms
proof (induction ops arbitrary: c)
  case Nil
  then show ?case by simp
next
  case (Cons a ops)
  obtain now now' op where a: "a = (now, now', op)" by (cases a) auto
  then obtain c1 where s: "ARC_step cfg now now' c op = Some c1" and r: "ARC_run cfg c1 ops = Some c'"
    using Cons.prems(1) by (auto split: option.splits)
  show ?case using Cons.IH[OF r ARC_step_keys_ok[OF s Cons.prems(2)]] .
qed

text \<open>What holds in every state that a run from a fresh cache reaches.\<close>

lemma ARC_reached:
  assumes "0 < cache_size cfg" "ARC_run cfg newARC ops = Some c"
  shows "arc_inv cfg c" and "arc_keys_ok c"
proof -
  show "arc_inv cfg c" using ARC_run_effect[OF newARC_inv(1)[OF assms(1)], of ops] assms(2) by auto
  have "arc_keys_ok (newARC :: ('a, 'b) ARC)" by (simp add: arc_keys_ok_def newARC_def)
  then show "arc_keys_ok c" using ARC_run_keys_ok[OF assms(2)] by simp
qed

text \<open>The definitions that evaluating an ARC run unfolds.\<close>

lemmas arc_eval_defs = ARC_step_def ARC_Set_def ARC_SetWithExpire_def ARC_set_def set_entry_def
  set_place_def ARC_set_expiration_def
  set_make_room_def replace_def evict_t1_def evict_t2_def drop_item_def call_evictedFunc_def
  call_addedFunc_def setPart_def isCacheFull_def arcList_Has_def arcList_PushFront_def
  arcList_MoveToFront_def arcList_Remove_def arcList_RemoveTail_def arcList_Len_def
  ARC_Remove_def ARC_remove_def ARC_GetWithContext_def ARC_get_def ARC_getValue_def
  getValue_t1_def getValue_t2_def ARC_count_hit_def ARC_count_miss_def IsExpired_def
  ARC_getWithLoader_def newARC_def Let_def

lemma lru_expiring_reached:
  "fst (LRUCache_SetWithExpire arc_example_cfg 0 newLRUCache 1 ''a'' 10) = lru_expiring"
  by code_simp

lemma arc_expiring_reached:
  "ARC_run arc_example_cfg newARC arc_expiring_run = Some arc_expiring"
  by (simp add: arc_expiring_run_def arc_expiring_def arc_example_cfg_def expiring_item_def arc_eval_defs)


lemma LRU_items_SomeD:
  assumes "LRUCache_items c key = Some it"
  shows "item_key it = key" and "it \<in> set (evictList c)" and "key \<in> set (map item_key (evictList c))"
proof -
  from assms obtain i where i: "i < length (evictList c)" "evictList c ! i = it" "item_key it = key"
    unfolding LRUCache_items_def find_Some_iff by blast
  show "item_key it = key" by (rule i(3))
  show "it \<in> set (evictList c)" using i(1,2) nth_mem by blast
  then show "key \<in> set (map item_key (evictList c))" using i(3) by force
qed

lemma find_filter_other:
  "k \<noteq> key \<Longrightarrow>
     find (\<lambda>it. item_key it = k) (filter (\<lambda>it. item_key it \<noteq> key) xs) = find (\<lambda>it. item_key it = k) xs"
  by (induction xs) auto

lemma find_filter_self:
  "find (\<lambda>it. item_key it = key) (filter (\<lambda>it. item_key it \<noteq> key) xs) = None"
  by (induction xs) auto

lemma card_split_key:
  assumes "finite S"
  shows "int (card S) = int (card (S - {k})) + (if k \<in> S then 1 else 0)"
proof (cases "k \<in> S")
  case True
  then show ?thesis using card.remove[OF assms True] by simp
next
  case False
  then show ?thesis by simp
qed

text \<open>The expired-or-not test of an entry with an expiration instant.\<close>

lemma IsExpired_iff:
  "item_expiration it = Some e \<Longrightarrow> IsExpired clock it None \<longleftrightarrow> e < clock"
  "item_expiration it = Some e \<Longrightarrow> IsExpired clock it (Some wall) \<longleftrightarrow> e < wall"
  by (simp_all add: IsExpired_def)

lemma LRU_live_cases:
  assumes it: "LRUCache_items c key = Some it" and e: "item_expiration it = Some e"
  shows "LRUCache_Has clock wall c key \<longleftrightarrow> wall \<le> e"
    and "key \<in> LRUCache_Keys clock wall c True \<longleftrightarrow> wall \<le> e"
    and "LRUCache_GetALL clock wall c True key = (if wall \<le> e then Some (item_value it) else None)"
    and "LRUCache_Len clock wall c True =
           LRUCache_Len clock wall
             (c\<lparr>evictList := filter (\<lambda>i. item_key i \<noteq> key) (evictList c)\<rparr>) True +
           (if wall \<le> e then 1 else 0)"
    and "(\<exists>c' v. LRUCache_getValue cfg now c key onLoad = (c', Inr v)) \<longleftrightarrow> now \<le> e"
proof -
  have has: "LRUCache_has clock c key (Some wall) \<longleftrightarrow> wall \<le> e"
    using it e by (auto simp: LRUCache_has_def IsExpired_iff)
  show "LRUCache_Has clock wall c key \<longleftrightarrow> wall \<le> e" using has by (simp add: LRUCache_Has_def)
  show "key \<in> LRUCache_Keys clock wall c True \<longleftrightarrow> wall \<le> e"
    using has LRU_items_SomeD(3)[OF it] by (simp add: LRUCache_Keys_def)
  show "LRUCache_GetALL clock wall c True key = (if wall \<le> e then Some (item_value it) else None)"
    using has it by (simp add: LRUCache_GetALL_def)
  show "(\<exists>c' v. LRUCache_getValue cfg now c key onLoad = (c', Inr v)) \<longleftrightarrow> now \<le> e"
    using it e by (auto simp: LRUCache_getValue_def IsExpired_iff)
  define c' where "c' = c\<lparr>evictList := filter (\<lambda>i. item_key i \<noteq> key) (evictList c)\<rparr>"
  define S where "S = {k \<in> set (map item_key (evictList c)). LRUCache_has clock c k (Some wall)}"
  define S' where "S' = {k \<in> set (map item_key (evictList c')). LRUCache_has clock c' k (Some wall)}"
  have other: "LRUCache_has clock c' k (Some wall) = LRUCache_has clock c k (Some wall)" if "k \<noteq> key" for k
    using that by (simp add: LRUCache_has_def LRUCache_items_def c'_def find_filter_other)
  have "S' = S - {key}"
    unfolding S_def S'_def using other by (auto simp: c'_def)
  moreover have "key \<in> S \<longleftrightarrow> wall \<le> e" using has LRU_items_SomeD(3)[OF it] by (simp add: S_def)
  moreover have "finite S" by (simp add: S_def)
  ultimately have "int (card S) = int (card S') + (if wall \<le> e then 1 else 0)"
    using card_split_key[of S key] by simp
  then show "LRUCache_Len clock wall c True =
           LRUCache_Len clock wall
             (c\<lparr>evictList := filter (\<lambda>i. item_key i \<noteq> key) (evictList c)\<rparr>) True +
           (if wall \<le> e then 1 else 0)"
    by (simp add: LRUCache_Len_def S_def S'_def c'_def)
qed

lemma ARC_live_cases:
  assumes inv: "arc_inv cfg c" and it: "items c key = Some it" and e: "item_expiration it = Some e"
  shows "ARC_Has clock wall c key \<longleftrightarrow> wall \<le> e"
    and "key \<in> ARC_Keys clock wall c True \<longleftrightarrow> wall \<le> e"
    and "ARC_GetALL clock wall c True key = (if wall \<le> e then Some (item_value it) else None)"
    and "ARC_Len clock wall c True =
           ARC_Len clock wall (c\<lparr>items := (items c)(key := None)\<rparr>) True +
           (if wall \<le> e then 1 else 0)"
    and "(\<exists>c' v. ARC_getValue cfg now c key onLoad = Some (c', Inr v)) \<longleftrightarrow> now \<le> e"
proof -
  have has: "ARC_has clock c key (Some wall) \<longleftrightarrow> wall \<le> e"
    using it e by (auto simp: ARC_has_def IsExpired_iff)
  show "ARC_Has clock wall c key \<longleftrightarrow> wall \<le> e" using has by (simp add: ARC_Has_def)
  show "key \<in> ARC_Keys clock wall c True \<longleftrightarrow> wall \<le> e"
    using has it by (auto simp: ARC_Keys_def)
  show "ARC_GetALL clock wall c True key = (if wall \<le> e then Some (item_value it) else None)"
    using has it by (simp add: ARC_GetALL_def)
  have ok: "arc_lists_ok c" and d: "dom (items c) = arc_T c" using inv by (simp_all add: arc_inv_def)
  have kT: "key \<in> arc_T c" using it d by auto
  have ex: "IsExpired now it None \<longleftrightarrow> \<not> now \<le> e" using e by (auto simp: IsExpired_iff)
  show "(\<exists>c' v. ARC_getValue cfg now c key onLoad = Some (c', Inr v)) \<longleftrightarrow> now \<le> e"
  proof (cases "key \<in> set (t1 c)")
    case True
    show ?thesis
      using getValue_hit_t1[OF True it, of now cfg onLoad]
        getValue_expired_t1[OF ok True it, of now cfg onLoad] ex by (cases "now \<le> e") auto
  next
    case False
    then have t2: "key \<in> set (t2 c)" using kT by (simp add: arc_T_def)
    show ?thesis
      using getValue_hit_t2[OF False t2 it, of now cfg onLoad]
        getValue_expired_t2[OF False t2 it, of now cfg onLoad] ex by (cases "now \<le> e") auto
  qed
  define c' where "c' = c\<lparr>items := (items c)(key := None)\<rparr>"
  define S where "S = {k \<in> dom (items c). ARC_has clock c k (Some wall)}"
  define S' where "S' = {k \<in> dom (items c'). ARC_has clock c' k (Some wall)}"
  have "S' = S - {key}"
    unfolding S_def S'_def by (auto simp: c'_def ARC_has_def split: if_splits)
  moreover have "key \<in> S \<longleftrightarrow> wall \<le> e" using has it by (auto simp: S_def)
  moreover have "finite S" using d by (simp add: S_def arc_T_def)
  ultimately have "int (card S) = int (card S') + (if wall \<le> e then 1 else 0)"
    using card_split_key[of S key] by simp
  then show "ARC_Len clock wall c True =
           ARC_Len clock wall (c\<lparr>items := (items c)(key := None)\<rparr>) True +
           (if wall \<le> e then 1 else 0)"
    by (simp add: ARC_Len_def S_def S'_def c'_def)
qed


text \<open>
  C3, amended. An entry with an expiration instant is treated as live by \<open>Has\<close>, \<open>Keys\<close>,
  \<open>GetALL\<close>, \<open>Len\<close> and by the lookup of \<open>Get\<close> exactly while the instant the operation
  reads is not after the expiration (\<open>now \<le> expiration\<close>): at \<open>now = expiration\<close> the entry
  is still live, and it is expired once \<open>expiration < now\<close>. For LRU in any state, for ARC
  in any state reached from a fresh cache.
\<close>

theorem entry_live_until_expiration_passed:
  assumes "LRUCache_items cl key = Some itl" and "item_expiration itl = Some el"
    and "0 < cache_size cfg" and "ARC_run cfg newARC ops = Some ca"
    and "items ca key = Some ita" and "item_expiration ita = Some ea"
  shows "(LRUCache_Has clock wall cl key \<longleftrightarrow> wall \<le> el) \<and>
         (key \<in> LRUCache_Keys clock wall cl True \<longleftrightarrow> wall \<le> el) \<and>
         LRUCache_GetALL clock wall cl True key = (if wall \<le> el then Some (item_value itl) else None) \<and>
         LRUCache_Len clock wall cl True =
           LRUCache_Len clock wall
             (cl\<lparr>evictList := filter (\<lambda>i. item_key i \<noteq> key) (evictList cl)\<rparr>) True +
           (if wall \<le> el then 1 else 0) \<and>
         ((\<exists>c' v. LRUCache_getValue cfg now cl key onLoad = (c', Inr v)) \<longleftrightarrow> now \<le> el) \<and>
         (ARC_Has clock wall ca key \<longleftrightarrow> wall \<le> ea) \<and>
         (key \<in> ARC_Keys clock wall ca True \<longleftrightarrow> wall \<le> ea) \<and>
         ARC_GetALL clock wall ca True key = (if wall \<le> ea then Some (item_value ita) else None) \<and>
         ARC_Len clock wall ca True =
           ARC_Len clock wall (ca\<lparr>items := (items ca)(key := None)\<rparr>) True +
           (if wall \<le> ea then 1 else 0) \<and>
         ((\<exists>c' v. ARC_getValue cfg now ca key onLoad = Some (c', Inr v)) \<longleftrightarrow> now \<le> ea)"
proof -
  note l = LRU_live_cases[OF assms(1,2)]
  note a = ARC_live_cases[OF ARC_reached(1)[OF assms(3,4)] assms(5,6)]
  show ?thesis
    apply (intro conjI)
             apply (rule l(1))
            apply (rule l(2))
           apply (rule l(3))
          apply (rule l(4))
         apply (rule l(5))
        apply (rule a(1))
       apply (rule a(2))
      apply (rule a(3))
     apply (rule a(4))
    apply (rule a(5))
    done
qed

theorem entry_live_until_expiration_passed_witness:
  "LRUCache_items lru_expiring 1 = Some expiring_item \<and> item_expiration expiring_item = Some 10 \<and>
   0 < cache_size arc_example_cfg \<and>
   ARC_run arc_example_cfg newARC arc_expiring_run = Some arc_expiring \<and>
   items arc_expiring 1 = Some expiring_item \<and>
   LRUCache_Has 0 10 lru_expiring 1 \<and> ARC_Has 0 10 arc_expiring 1 \<and>
   1 \<in> LRUCache_Keys 0 10 lru_expiring True \<and> 1 \<in> ARC_Keys 0 10 arc_expiring True \<and>
   (\<exists>c' v. LRUCache_getValue arc_example_cfg 10 lru_expiring 1 False = (c', Inr v)) \<and>
   (\<exists>c' v. ARC_getValue arc_example_cfg 10 arc_expiring 1 False = Some (c', Inr v))"
proof -
  have h1: "LRUCache_items lru_expiring 1 = Some expiring_item"
    by (simp add: LRUCache_items_def lru_expiring_def expiring_item_def)
  have h2: "item_expiration expiring_item = Some 10" by (simp add: expiring_item_def)
  have h3: "0 < cache_size arc_example_cfg" by (simp add: arc_example_cfg_def)
  have h4: "ARC_run arc_example_cfg newARC arc_expiring_run = Some arc_expiring"
    by (rule arc_expiring_reached)
  have h5: "items arc_expiring 1 = Some expiring_item" by (simp add: arc_expiring_def)
  note th = entry_live_until_expiration_passed[OF h1 h2 h3 h4 h5 h2, where clock=0 and wall=10 and now=10 and onLoad=False]
  show ?thesis using th h1 h2 h3 h4 h5 by simp
qed

text \<open>
  Against C3 as stated: an entry that expires at 10, read at 10, is live for \<open>Has\<close> and is
  a hit for \<open>getValue\<close>, in both engines.
\<close>

theorem expired_at_expiration_instant_counterexample:
  "item_expiration expiring_item = Some 10 \<and>
   LRUCache_items lru_expiring 1 = Some expiring_item \<and> items arc_expiring 1 = Some expiring_item \<and>
   LRUCache_Has 0 10 lru_expiring 1 \<and> ARC_Has 0 10 arc_expiring 1 \<and>
   snd (LRUCache_getValue arc_example_cfg 10 lru_expiring 1 False) = Inr ''a'' \<and>
   map_option snd (ARC_getValue arc_example_cfg 10 arc_expiring 1 False) = Some (Inr ''a'')"
  by (simp add: expiring_item_def lru_expiring_def arc_expiring_def LRUCache_items_def
      LRUCache_Has_def LRUCache_has_def ARC_Has_def ARC_has_def IsExpired_def LRUCache_getValue_def
      ARC_getValue_def getValue_t1_def arcList_Has_def)

text \<open>
  \<open>Has\<close>, \<open>Keys\<close>, \<open>GetALL\<close> and \<open>Len\<close> take the instant from \<open>time.Now()\<close> and never
  read the clock of the cache: their results are the same under every reading of that
  clock.
\<close>

lemma has_ignores_the_clock:
  "LRUCache_has clock cl key (Some wall) = LRUCache_has clock' cl key (Some wall)"
  "ARC_has clock ca key (Some wall) = ARC_has clock' ca key (Some wall)"
  by (simp_all add: LRUCache_has_def ARC_has_def IsExpired_def split: option.splits)

lemma snapshots_ignore_the_clock:
  "LRUCache_Has clock wall cl key = LRUCache_Has clock' wall cl key"
  "LRUCache_Keys clock wall cl b = LRUCache_Keys clock' wall cl b"
  "LRUCache_GetALL clock wall cl b = LRUCache_GetALL clock' wall cl b"
  "LRUCache_Len clock wall cl b = LRUCache_Len clock' wall cl b"
  "ARC_Has clock wall ca key = ARC_Has clock' wall ca key"
  "ARC_Keys clock wall ca b = ARC_Keys clock' wall ca b"
  "ARC_GetALL clock wall ca b = ARC_GetALL clock' wall ca b"
  "ARC_Len clock wall ca b = ARC_Len clock' wall ca b"
  unfolding LRUCache_Has_def LRUCache_Keys_def LRUCache_GetALL_def LRUCache_Len_def
    ARC_Has_def ARC_Keys_def ARC_GetALL_def ARC_Len_def
    has_ignores_the_clock(1)[of clock _ _ _ clock'] has_ignores_the_clock(2)[of clock _ _ _ clock']
  by (rule refl)+

text \<open>
  C6, at the failing input. The entry expires at 10, the clock of the cache (a fake one)
  reads 20 and \<open>time.Now()\<close> reads 5: \<open>Get\<close> finds the entry expired, while \<open>Has\<close>, \<open>Keys\<close>,
  \<open>GetALL\<close> and \<open>Len\<close> still report it.
\<close>

theorem snapshots_read_wall_clock_not_cache_clock:
  "snd (LRUCache_getValue arc_example_cfg 20 lru_expiring 1 False) = Inl KeyNotFoundError \<and>
   LRUCache_Has 20 5 lru_expiring 1 \<and> 1 \<in> LRUCache_Keys 20 5 lru_expiring True \<and>
   LRUCache_GetALL 20 5 lru_expiring True 1 = Some ''a'' \<and> LRUCache_Len 20 5 lru_expiring True = 1 \<and>
   map_option snd (ARC_getValue arc_example_cfg 20 arc_expiring 1 False) = Some (Inl KeyNotFoundError) \<and>
   ARC_Has 20 5 arc_expiring 1 \<and> 1 \<in> ARC_Keys 20 5 arc_expiring True \<and>
   ARC_GetALL 20 5 arc_expiring True 1 = Some ''a'' \<and> ARC_Len 20 5 arc_expiring True = 1"
proof -
  have "{k. k = (1::nat) \<and> k = 1} = {1}" by auto
  moreover have "{k \<in> dom [1::nat \<mapsto> expiring_item]. k = 1} = {1}" by auto
  ultimately show ?thesis
  by (simp add: expiring_item_def lru_expiring_def arc_expiring_def LRUCache_items_def
      LRUCache_Has_def LRUCache_has_def ARC_Has_def ARC_has_def IsExpired_def LRUCache_getValue_def
      ARC_getValue_def getValue_t1_def getValue_t2_def arcList_Has_def LRUCache_Keys_def LRUCache_GetALL_def
      LRUCache_Len_def ARC_Keys_def ARC_GetALL_def ARC_Len_def LRUCache_removeElement_def
      LRUCache_count_miss_def ARC_count_miss_def call_evictedFunc_def arc_example_cfg_def
      arcList_Remove_def arcList_PushFront_def Let_def)
qed

text \<open>
  With expired entries filtered out (\<open>checkExpired\<close> true), the snapshots at wall reading 5
  keep the entry that the cache clock, at 20, has expired.
\<close>

theorem snapshots_read_wall_clock_not_cache_clock_witness:
  "1 \<in> LRUCache_Keys 20 5 lru_expiring True \<and> 1 \<in> ARC_Keys 20 5 arc_expiring True \<and>
   LRUCache_Len 20 5 lru_expiring True = 1 \<and> ARC_Len 20 5 arc_expiring True = 1"
  using snapshots_read_wall_clock_not_cache_clock by simp

lemma LRU_removeElement_fields [simp]:
  "evictList (LRUCache_removeElement cfg e c) = filter (\<lambda>it. item_key it \<noteq> item_key e) (evictList c)"
  "lru_stats (LRUCache_removeElement cfg e c) = lru_stats c"
  "lru_added_calls (LRUCache_removeElement cfg e c) = lru_added_calls c"
  "lru_evicted_calls (LRUCache_removeElement cfg e c) =
     lru_evicted_calls c @ (if evictedFunc cfg then [(item_key e, item_value e)] else [])"
  by (simp_all add: LRUCache_removeElement_def Let_def)

lemma LRU_count_fields [simp]:
  "evictList (LRUCache_count_hit b c) = evictList c" "evictList (LRUCache_count_miss b c) = evictList c"
  "lru_added_calls (LRUCache_count_hit b c) = lru_added_calls c"
  "lru_added_calls (LRUCache_count_miss b c) = lru_added_calls c"
  "lru_evicted_calls (LRUCache_count_hit b c) = lru_evicted_calls c"
  "lru_evicted_calls (LRUCache_count_miss b c) = lru_evicted_calls c"
  "lru_stats (LRUCache_count_hit b c) = (if b then lru_stats c else IncrHitCount (lru_stats c))"
  "lru_stats (LRUCache_count_miss b c) = (if b then lru_stats c else IncrMissCount (lru_stats c))"
  by (simp_all add: LRUCache_count_hit_def LRUCache_count_miss_def)

lemma LRU_evict_stats [simp]: "lru_stats (LRUCache_evict cfg n c) = lru_stats c"
  by (induction n arbitrary: c) simp_all

lemma LRU_set_stats: "lru_stats (fst (LRUCache_set cfg now c key v)) = lru_stats c"
  by (simp add: LRUCache_set_def Let_def split: sum.splits option.splits prod.splits)

lemma LRU_set_expiration_stats [simp]: "lru_stats (LRUCache_set_expiration key t c) = lru_stats c"
  by (simp add: LRUCache_set_expiration_def)

text \<open>The loader path of LRU returns and leaves the counters alone.\<close>

lemma LRU_getWithLoader_stats:
  "\<exists>c' r. LRUCache_getWithLoader cfg now c ctx key w = Some (c', r) \<and> lru_stats c' = lru_stats c"
proof (cases "loaderExpireFunc cfg")
  case None
  then show ?thesis by (simp add: LRUCache_getWithLoader_def)
next
  case (Some f)
  show ?thesis
  proof (cases "f ctx key")
    case (LoaderPanics r)
    then show ?thesis using Some by (simp add: LRUCache_getWithLoader_def load_def Group_Do_def)
  next
    case (LoaderReturns v ttl e)
    obtain c1 e1 where s: "LRUCache_set cfg now c key v = (c1, e1)" by (cases "LRUCache_set cfg now c key v") auto
    have st: "lru_stats c1 = lru_stats c" using LRU_set_stats[of cfg now c key v] s by simp
    show ?thesis using Some LoaderReturns s st
      by (cases e; cases e1; cases ttl)
        (simp_all add: LRUCache_getWithLoader_def load_def Group_Do_def LRUCache_load_cb_def)
  qed
qed

text \<open>A lookup that finds no live entry is a miss and leaves no entry under the key.\<close>

lemma LRU_miss:
  assumes "\<not> LRUCache_has now c key None"
  shows "\<exists>c1. LRUCache_getValue cfg now c key onLoad = (c1, Inl KeyNotFoundError) \<and>
           LRUCache_items c1 key = None \<and> lru_added_calls c1 = lru_added_calls c \<and>
           lru_stats c1 = (if onLoad then lru_stats c else IncrMissCount (lru_stats c))"
proof (cases "LRUCache_items c key")
  case None
  then show ?thesis by (simp add: LRUCache_getValue_def LRUCache_items_def)
next
  case (Some it)
  then have "IsExpired now it None" using assms by (simp add: LRUCache_has_def)
  moreover have "item_key it = key" by (rule LRU_items_SomeD(1)[OF Some])
  ultimately show ?thesis using Some
    by (simp add: LRUCache_getValue_def LRUCache_items_def find_filter_self)
qed

lemma ARC_miss:
  assumes inv: "arc_inv cfg c" and no: "\<not> ARC_has now c key None"
  shows "\<exists>c1. ARC_getValue cfg now c key onLoad = Some (c1, Inl KeyNotFoundError) \<and>
           arc_inv cfg c1 \<and> items c1 key = None \<and> added_calls c1 = added_calls c \<and>
           arc_stats c1 = (if onLoad then arc_stats c else IncrMissCount (arc_stats c))"
proof -
  have ok: "arc_lists_ok c" and d: "dom (items c) = arc_T c" using inv by (simp_all add: arc_inv_def)
  obtain c1 r where g: "ARC_getValue cfg now c key onLoad = Some (c1, r)" and i: "arc_inv cfg c1"
    and m: "\<forall>e. r = Inl e \<longrightarrow> e = KeyNotFoundError \<and> key \<notin> dom (items c1)"
    using ARC_getValue_effect[OF inv] by blast
  consider (t1) it where "key \<in> set (t1 c)" "items c key = Some it" "IsExpired now it None"
    | (t2) it where "key \<notin> set (t1 c)" "key \<in> set (t2 c)" "items c key = Some it" "IsExpired now it None"
    | (none) "key \<notin> set (t1 c)" "key \<notin> set (t2 c)"
    using no d by (fastforce simp: ARC_has_def arc_T_def split: option.splits)
  then show ?thesis
  proof cases
    case t1
    show ?thesis using g i m getValue_expired_t1[OF ok t1, of cfg onLoad]
      by (auto simp: ARC_count_miss_def)
  next
    case t2
    show ?thesis using g i m getValue_expired_t2[OF t2, of cfg onLoad]
      by (auto simp: ARC_count_miss_def)
  next
    case none
    show ?thesis using g i m getValue_absent[OF none, of cfg now onLoad]
      by (auto simp: ARC_count_miss_def)
  qed
qed

lemma set_PushFront [simp]: "set (arcList_PushFront k al) = insert k (set al)"
proof (cases "k \<in> set al")
  case True
  have a: "\<And>x. x \<in> set (remove1 k al) \<Longrightarrow> x \<in> set al"
    using set_remove1_subset[of k al] by blast
  have b: "\<And>x. x \<in> set al \<Longrightarrow> x \<noteq> k \<Longrightarrow> x \<in> set (remove1 k al)"
    by simp
  have "set (k # remove1 k al) = insert k (set al)"
    unfolding list.set using a b True by blast
  then show ?thesis using True by (simp add: arcList_PushFront_def)
next
  case False
  then show ?thesis by (simp add: arcList_PushFront_def)
qed

lemma ARC_expired_read:
  assumes inv: "arc_inv cfg c" and ko: "arc_keys_ok c"
    and it: "items c key = Some it" and ex: "IsExpired now it None"
  shows "\<exists>c1. ARC_getValue cfg now c key False = Some (c1, Inl KeyNotFoundError) \<and>
           arc_inv cfg c1 \<and> arc_stats c1 = IncrMissCount (arc_stats c) \<and> items c1 key = None \<and>
           key \<notin> set (t1 c1) \<and> key \<notin> set (t2 c1) \<and> (key \<in> set (b1 c1) \<or> key \<in> set (b2 c1)) \<and>
           evicted_calls c1 =
             evicted_calls c @ (if evictedFunc cfg then [(key, item_value it)] else [])"
proof -
  have ok: "arc_lists_ok c" and d: "dom (items c) = arc_T c" using inv by (simp_all add: arc_inv_def)
  have k: "item_key it = key" using ko it by (simp add: arc_keys_ok_def)
  obtain c1 r where g: "ARC_getValue cfg now c key False = Some (c1, r)" and i: "arc_inv cfg c1"
    using ARC_getValue_effect[OF inv] by blast
  have kT: "key \<in> arc_T c" using it d by auto
  have okD: "distinct (t1 c)" "distinct (t2 c)" "key \<in> set (t1 c) \<Longrightarrow> key \<notin> set (t2 c)"
    using ok unfolding arc_lists_ok_iff by blast+
  show ?thesis
  proof (cases "key \<in> set (t1 c)")
    case True
    show ?thesis using g i getValue_expired_t1[OF ok True it ex, of cfg False] k okD True
      by (auto simp: ARC_count_miss_def call_evictedFunc_def set_Remove)
  next
    case False
    then have t2: "key \<in> set (t2 c)" using kT by (simp add: arc_T_def)
    show ?thesis using g i getValue_expired_t2[OF False t2 it ex, of cfg False] k okD False
      by (auto simp: ARC_count_miss_def call_evictedFunc_def set_Remove)
  qed
qed

lemma arc_expiring_reached_loading:
  "ARC_run loading_cfg newARC arc_expiring_run = Some arc_expiring"
  by (simp add: arc_expiring_run_def arc_expiring_def loading_cfg_def expiring_item_def arc_eval_defs)

lemma ARC_hit:
  assumes inv: "arc_inv cfg c" and it: "items c key = Some it" and ex: "\<not> IsExpired now it None"
  shows "\<exists>c1 rest. ARC_getValue cfg now c key False = Some (c1, Inr (item_value it)) \<and>
           arc_stats c1 = IncrHitCount (arc_stats c) \<and> t2 c1 = key # rest \<and>
           key \<notin> set (t1 c1) \<and> items c1 = items c"
proof -
  have ok: "arc_lists_ok c" and d: "dom (items c) = arc_T c" using inv by (simp_all add: arc_inv_def)
  have kT: "key \<in> arc_T c" using it d by auto
  have okD: "distinct (t1 c)" "key \<in> set (t1 c) \<Longrightarrow> key \<notin> set (t2 c)"
    using ok unfolding arc_lists_ok_iff by blast+
  show ?thesis
  proof (cases "key \<in> set (t1 c)")
    case True
    show ?thesis using getValue_hit_t1[OF True it ex, of cfg False] okD True
      by (simp add: ARC_count_hit_def set_Remove PushFront_new)
  next
    case False
    then have t2: "key \<in> set (t2 c)" using kT by (simp add: arc_T_def)
    show ?thesis using getValue_hit_t2[OF False t2 it ex, of cfg False] False
      by (simp add: ARC_count_hit_def arcList_MoveToFront_def)
  qed
qed

text \<open>
  C10, amended. When the deserialize hook returns an error on a \<open>Get\<close> of a live,
  non-expired entry, the hit counter has been incremented (the miss counter not), the
  entry has been touched (front of the recency list in LRU, front of T2 in ARC) and
  stays in the cache; \<open>Get\<close> returns that error unless the error is, or wraps,
  \<open>KeyNotFoundError\<close>, in which case \<open>Get\<close> goes on as after a miss, with
  \<open>getWithLoader\<close>. For LRU in any state, for ARC in any state reached from a fresh
  cache.
\<close>

theorem deserialize_error_after_hit:
  assumes "deserializeFunc cfg = Some d"
    and "LRUCache_items cl key = Some itl" and "\<not> IsExpired now itl None"
    and "d key (item_value itl) = Inl errl"
    and "0 < cache_size cfg" and "ARC_run cfg newARC ops = Some ca"
    and "items ca key = Some ita" and "\<not> IsExpired now ita None"
    and "d key (item_value ita) = Inl erra"
  shows "(\<exists>c1. LRUCache_get cfg now cl key False = (c1, Inl errl) \<and>
            lru_stats c1 = IncrHitCount (lru_stats cl) \<and>
            evictList c1 = itl # filter (\<lambda>i. item_key i \<noteq> key) (evictList cl) \<and>
            LRUCache_items c1 key = Some itl \<and>
            LRUCache_GetWithContext cfg now now' cl ctx key =
              (if errors_Is_KeyNotFoundError errl
               then LRUCache_getWithLoader cfg now' c1 ctx key True
               else Some (c1, Inl errl))) \<and>
         (\<exists>c1 rest. ARC_get cfg now ca key False = Some (c1, Inl erra) \<and>
            arc_stats c1 = IncrHitCount (arc_stats ca) \<and>
            t2 c1 = key # rest \<and> key \<notin> set (t1 c1) \<and> items c1 = items ca \<and>
            ARC_GetWithContext cfg now now' ca ctx key =
              (if errors_Is_KeyNotFoundError erra
               then ARC_getWithLoader cfg now' c1 ctx key True
               else Some (c1, Inl erra)))"
proof -
  have kl: "item_key itl = key" by (rule LRU_items_SomeD(1)[OF assms(2)])
  define c1 where "c1 = LRUCache_count_hit False
                     (cl\<lparr>evictList := itl # filter (\<lambda>it. item_key it \<noteq> key) (evictList cl)\<rparr>)"
  have g: "LRUCache_get cfg now cl key False = (c1, Inl errl)"
    using assms(1-4) by (simp add: LRUCache_get_def LRUCache_getValue_def c1_def)
  have f: "lru_stats c1 = IncrHitCount (lru_stats cl)"
    "evictList c1 = itl # filter (\<lambda>i. item_key i \<noteq> key) (evictList cl)"
    "LRUCache_items c1 key = Some itl"
    using kl by (simp_all add: c1_def LRUCache_items_def)
  have w: "LRUCache_GetWithContext cfg now now' cl ctx key =
              (if errors_Is_KeyNotFoundError errl
               then LRUCache_getWithLoader cfg now' c1 ctx key True
               else Some (c1, Inl errl))"
    using g by (simp add: LRUCache_GetWithContext_def)
  have lru: "\<exists>c1. LRUCache_get cfg now cl key False = (c1, Inl errl) \<and>
            lru_stats c1 = IncrHitCount (lru_stats cl) \<and>
            evictList c1 = itl # filter (\<lambda>i. item_key i \<noteq> key) (evictList cl) \<and>
            LRUCache_items c1 key = Some itl \<and>
            LRUCache_GetWithContext cfg now now' cl ctx key =
              (if errors_Is_KeyNotFoundError errl
               then LRUCache_getWithLoader cfg now' c1 ctx key True
               else Some (c1, Inl errl))"
    by (rule exI[of _ c1]) (simp only: g f w simp_thms)
  obtain c2 rest where a: "ARC_getValue cfg now ca key False = Some (c2, Inr (item_value ita))"
    "arc_stats c2 = IncrHitCount (arc_stats ca)" "t2 c2 = key # rest" "key \<notin> set (t1 c2)"
    "items c2 = items ca"
    using ARC_hit[OF ARC_reached(1)[OF assms(5,6)] assms(7,8)] by blast
  have ga: "ARC_get cfg now ca key False = Some (c2, Inl erra)"
    using a(1) assms(1,9) by (simp add: ARC_get_def)
  have wa: "ARC_GetWithContext cfg now now' ca ctx key =
              (if errors_Is_KeyNotFoundError erra
               then ARC_getWithLoader cfg now' c2 ctx key True
               else Some (c2, Inl erra))"
    using ga by (simp add: ARC_GetWithContext_def)
  have arc: "\<exists>c1 rest. ARC_get cfg now ca key False = Some (c1, Inl erra) \<and>
            arc_stats c1 = IncrHitCount (arc_stats ca) \<and>
            t2 c1 = key # rest \<and> key \<notin> set (t1 c1) \<and> items c1 = items ca \<and>
            ARC_GetWithContext cfg now now' ca ctx key =
              (if errors_Is_KeyNotFoundError erra
               then ARC_getWithLoader cfg now' c1 ctx key True
               else Some (c1, Inl erra))"
    by (rule exI[of _ c2], rule exI[of _ rest]) (simp only: ga a(2-5) wa simp_thms)
  show ?thesis using lru arc by (rule conjI)
qed

lemma arc_expiring_reached_failing:
  "ARC_run failing_deserialize_cfg newARC arc_expiring_run = Some arc_expiring"
  by (simp add: arc_expiring_run_def arc_expiring_def failing_deserialize_cfg_def loading_cfg_def
      expiring_item_def arc_eval_defs)

theorem deserialize_error_after_hit_witness:
  "LRUCache_items lru_expiring 1 = Some expiring_item \<and> \<not> IsExpired 5 expiring_item None \<and>
   0 < cache_size failing_deserialize_cfg \<and>
   ARC_run failing_deserialize_cfg newARC arc_expiring_run = Some arc_expiring \<and>
   items arc_expiring 1 = Some expiring_item \<and>
   (\<exists>c1. LRUCache_GetWithContext failing_deserialize_cfg 5 5 lru_expiring () 1 =
            Some (c1, Inl (Errorf ''bad encoding'')) \<and>
          lru_stats c1 = \<lparr>hitCount = 1, missCount = 0\<rparr> \<and>
          LRUCache_items c1 1 = Some expiring_item) \<and>
   (\<exists>c1 rest. ARC_GetWithContext failing_deserialize_cfg 5 5 arc_expiring () 1 =
            Some (c1, Inl (Errorf ''bad encoding'')) \<and>
          arc_stats c1 = \<lparr>hitCount = 1, missCount = 0\<rparr> \<and> t2 c1 = 1 # rest \<and>
          items c1 1 = Some expiring_item)"
proof -
  have h0: "deserializeFunc failing_deserialize_cfg = Some (\<lambda>k v. Inl (Errorf ''bad encoding''))"
    by (simp add: failing_deserialize_cfg_def)
  have h1: "LRUCache_items lru_expiring 1 = Some expiring_item"
    by (simp add: LRUCache_items_def lru_expiring_def expiring_item_def)
  have h2: "\<not> IsExpired 5 expiring_item None" by (simp add: IsExpired_def expiring_item_def)
  have h4: "0 < cache_size failing_deserialize_cfg"
    by (simp add: failing_deserialize_cfg_def loading_cfg_def)
  have h5: "ARC_run failing_deserialize_cfg newARC arc_expiring_run = Some arc_expiring"
    by (rule arc_expiring_reached_failing)
  have h6: "items arc_expiring 1 = Some expiring_item" by (simp add: arc_expiring_def)
  have e: "IncrHitCount (lru_stats lru_expiring) = \<lparr>hitCount = 1, missCount = 0\<rparr>"
    "IncrHitCount (arc_stats arc_expiring) = \<lparr>hitCount = 1, missCount = 0\<rparr>"
    by (simp_all add: IncrHitCount_def lru_expiring_def arc_expiring_def)
  note th = deserialize_error_after_hit[where d="\<lambda>k v. Inl (Errorf ''bad encoding'')"
      and errl="Errorf ''bad encoding''" and erra="Errorf ''bad encoding''" and now'=5 and ctx="()",
      OF h0 h1 h2 refl h4 h5 h6 h2 refl]
  have ne: "\<not> errors_Is_KeyNotFoundError (Errorf ''bad encoding'')" by simp
  note th' = th[unfolded if_not_P[OF ne] e]
  from th' obtain c1 where l: "LRUCache_GetWithContext failing_deserialize_cfg 5 5 lru_expiring () 1 =
            Some (c1, Inl (Errorf ''bad encoding''))" "lru_stats c1 = \<lparr>hitCount = 1, missCount = 0\<rparr>"
          "LRUCache_items c1 1 = Some expiring_item"
    by (elim conjE exE) (rule that)
  from th' obtain c2 rest where a: "ARC_GetWithContext failing_deserialize_cfg 5 5 arc_expiring () 1 =
            Some (c2, Inl (Errorf ''bad encoding''))" "arc_stats c2 = \<lparr>hitCount = 1, missCount = 0\<rparr>"
          "t2 c2 = 1 # rest" "items c2 = items arc_expiring"
    by (elim conjE exE) (rule that)
  have "items c2 1 = Some expiring_item" using a(4) h6 by simp
  then show ?thesis using h1 h2 h4 h5 h6 l a(1-3) by (intro conjI exI) assumption+
qed

text \<open>
  Against C10 as stated: the hook fails with \<open>KeyNotFoundError\<close> on a live entry and a
  loader is configured; \<open>Get\<close> returns the loaded value and no error.
\<close>

theorem deserialize_error_returned_counterexample:
  "snd (LRUCache_get sentinel_deserialize_cfg 5 lru_expiring 1 False) = Inl KeyNotFoundError \<and>
   map_option snd (LRUCache_GetWithContext sentinel_deserialize_cfg 5 5 lru_expiring () 1) =
     Some (Inr ''loaded'') \<and>
   map_option snd (ARC_get sentinel_deserialize_cfg 5 arc_expiring 1 False) =
     Some (Inl KeyNotFoundError) \<and>
   map_option snd (ARC_GetWithContext sentinel_deserialize_cfg 5 5 arc_expiring () 1) =
     Some (Inr ''loaded'')"
  by (simp add: sentinel_deserialize_cfg_def loading_cfg_def lru_expiring_def arc_expiring_def
      expiring_item_def LRUCache_get_def LRUCache_getValue_def LRUCache_items_def IsExpired_def
      LRUCache_count_hit_def LRUCache_GetWithContext_def LRUCache_getWithLoader_def load_def
      Group_Do_def LRUCache_load_cb_def LRUCache_set_def Let_def
      ARC_get_def ARC_getValue_def getValue_t1_def arcList_Has_def ARC_count_hit_def
      ARC_GetWithContext_def ARC_getWithLoader_def ARC_load_cb_def ARC_set_def set_entry_def
      set_place_def call_addedFunc_def arcList_Remove_def arcList_PushFront_def)

text \<open>The ghost case of \<open>set\<close>, field by field.\<close>

lemma set_place_ghost:
  assumes mid: "arc_mid cfg key c1" and nk: "key \<notin> arc_T c1" and kb: "key \<in> arc_B c1"
  defines "p \<equiv> (if key \<in> set (b1 c1)
                 then min (cache_size cfg)
                        (part c1 + max (arcList_Len (b2 c1) div arcList_Len (b1 c1)) 1)
                 else max 0 (part c1 - max (arcList_Len (b1 c1) div arcList_Len (b2 c1)) 1))"
  shows "\<exists>c2 c'. replace cfg (setPart cfg c1 p) key = Some c2 \<and>
           replaced cfg (setPart cfg c1 p) c2 \<and>
           set_place cfg c1 key v = Some c' \<and>
           part c' = (if isCacheFull cfg c1 then p else part c1) \<and>
           t1 c' = t1 c2 \<and> t2 c' = key # t2 c2 \<and>
           b1 c' = arcList_Remove key (b1 c2) \<and> b2 c' = arcList_Remove key (b2 c2) \<and>
           key \<notin> set (t1 c') \<and> key \<notin> set (b1 c') \<and> key \<notin> set (b2 c') \<and> items c' = items c2"
proof -
  have sz: "0 < cache_size cfg" and ok: "arc_lists_ok c1" using mid by (simp_all add: arc_mid_def)
  define cs where "cs = setPart cfg c1 p"
  have oks: "arc_lists_ok cs" using ok by (simp add: cs_def)
  obtain c2 where c2: "replace cfg cs key = Some c2" and r: "replaced cfg cs c2"
    using replace_effect[OF oks sz] by blast
  note s = replaced_summary[OF oks r]
  have ok2: "arc_lists_ok c2" by (rule s(1))
  have p2: "part c2 = (if isCacheFull cfg c1 then p else part c1)"
    using r by (auto simp: replaced_def cs_def setPart_def)
  have nT2: "key \<notin> set (t1 c2)" "key \<notin> set (t2 c2)"
    using s(2) nk by (auto simp: arc_T_def cs_def)
  have d2: "distinct (b1 c2)" "distinct (b2 c2)" using ok2 unfolding arc_lists_ok_iff by blast+
  show ?thesis
  proof (cases "key \<in> set (b1 c1)")
    case True
    have sp: "set_place cfg c1 key v =
        (case replace cfg cs key of None \<Rightarrow> None
         | Some c2 \<Rightarrow> Some (call_addedFunc cfg key v
              (c2\<lparr>b1 := arcList_Remove key (b1 c2), t2 := arcList_PushFront key (t2 c2)\<rparr>)))"
      using True nk by (simp add: set_place_def arcList_Has_def arc_T_def cs_def p_def)
    have k2: "key \<in> set (b1 c2)" using s(3) True by (auto simp: cs_def)
    then have nb2: "key \<notin> set (b2 c2)" using ok2 unfolding arc_lists_ok_iff by blast
    then have rb2: "arcList_Remove key (b2 c2) = b2 c2" by (simp add: arcList_Remove_def remove1_idem)
    define c' where "c' = call_addedFunc cfg key v
              (c2\<lparr>b1 := arcList_Remove key (b1 c2), t2 := arcList_PushFront key (t2 c2)\<rparr>)"
    have "set_place cfg c1 key v = Some c'" using sp c2 by (simp add: c'_def)
    moreover have "part c' = (if isCacheFull cfg c1 then p else part c1)" using p2 by (simp add: c'_def)
    moreover have "t1 c' = t1 c2" "t2 c' = key # t2 c2" "b1 c' = arcList_Remove key (b1 c2)"
      "b2 c' = arcList_Remove key (b2 c2)" "items c' = items c2"
      using nT2 rb2 by (simp_all add: c'_def PushFront_new)
    moreover have "key \<notin> set (t1 c')" "key \<notin> set (b1 c')" "key \<notin> set (b2 c')"
      using nT2 nb2 d2 by (simp_all add: c'_def set_Remove)
    ultimately show ?thesis using c2 r unfolding cs_def by blast
  next
    case False
    then have b2: "key \<in> set (b2 c1)" using kb by (simp add: arc_B_def)
    have sp: "set_place cfg c1 key v =
        (case replace cfg cs key of None \<Rightarrow> None
         | Some c2 \<Rightarrow> Some (call_addedFunc cfg key v
              (c2\<lparr>b2 := arcList_Remove key (b2 c2), t2 := arcList_PushFront key (t2 c2)\<rparr>)))"
      using False b2 nk by (simp add: set_place_def arcList_Has_def arc_T_def cs_def p_def)
    have k2: "key \<in> set (b2 c2)" using s(4) b2 by (auto simp: cs_def)
    then have nb1: "key \<notin> set (b1 c2)" using ok2 unfolding arc_lists_ok_iff by blast
    then have rb1: "arcList_Remove key (b1 c2) = b1 c2" by (simp add: arcList_Remove_def remove1_idem)
    define c' where "c' = call_addedFunc cfg key v
              (c2\<lparr>b2 := arcList_Remove key (b2 c2), t2 := arcList_PushFront key (t2 c2)\<rparr>)"
    have "set_place cfg c1 key v = Some c'" using sp c2 by (simp add: c'_def)
    moreover have "part c' = (if isCacheFull cfg c1 then p else part c1)" using p2 by (simp add: c'_def)
    moreover have "t1 c' = t1 c2" "t2 c' = key # t2 c2" "b1 c' = arcList_Remove key (b1 c2)"
      "b2 c' = arcList_Remove key (b2 c2)" "items c' = items c2"
      using nT2 rb1 by (simp_all add: c'_def PushFront_new)
    moreover have "key \<notin> set (t1 c')" "key \<notin> set (b1 c')" "key \<notin> set (b2 c')"
      using nT2 nb1 d2 by (simp_all add: c'_def set_Remove)
    ultimately show ?thesis using c2 r unfolding cs_def by blast
  qed
qed

text \<open>
  C5, amended. In a state reached from a fresh cache, \<open>Set\<close> of a key found in B1 (in
  B2), with a serialize hook that does not fail: the target \<open>p\<close> becomes
  \<open>min(size, p + max(1, |B2| div |B1|))\<close> (\<open>max(0, p - max(1, |B1| div |B2|))\<close>) if
  \<open>|T1| + |T2| = size\<close> at that moment and stays as it is otherwise; then \<open>replace\<close> runs on
  that state; then the key leaves its ghost list and becomes the front of T2.
\<close>

theorem ARC_set_of_ghost:
  assumes "0 < cache_size cfg" and "ARC_run cfg newARC ops = Some c"
    and "key \<in> set (b1 c) \<or> key \<in> set (b2 c)"
    and "(case serializeFunc cfg of None \<Rightarrow> Inr v | Some f \<Rightarrow> f key v) = Inr v'"
  defines "p \<equiv> (if key \<in> set (b1 c)
                 then min (cache_size cfg)
                        (part c + max 1 (arcList_Len (b2 c) div arcList_Len (b1 c)))
                 else max 0 (part c - max 1 (arcList_Len (b1 c) div arcList_Len (b2 c))))"
  shows "\<exists>c2 c'. replace cfg (setPart cfg (set_entry cfg now c key v') p) key = Some c2 \<and>
           ARC_Set cfg now c key v = Some (c', None) \<and>
           part c' = (if arcList_Len (t1 c) + arcList_Len (t2 c) = cache_size cfg then p else part c) \<and>
           t1 c' = t1 c2 \<and> t2 c' = key # t2 c2 \<and>
           b1 c' = arcList_Remove key (b1 c2) \<and> b2 c' = arcList_Remove key (b2 c2) \<and>
           key \<notin> set (b1 c') \<and> key \<notin> set (b2 c')"
proof -
  have inv: "arc_inv cfg c" by (rule ARC_reached(1)[OF assms(1,2)])
  define c1 where "c1 = set_entry cfg now c key v'"
  have mid: "arc_mid cfg key c1" unfolding c1_def by (rule set_entry_mid(1)[OF inv])
  have ok: "arc_lists_ok c" using inv by (simp add: arc_inv_def)
  have nk: "key \<notin> arc_T c1" using assms(3) ok
    unfolding arc_lists_ok_iff by (auto simp: arc_T_def c1_def)
  have kb: "key \<in> arc_B c1" using assms(3) by (auto simp: arc_B_def c1_def)
  have pe: "p = (if key \<in> set (b1 c1)
                 then min (cache_size cfg)
                        (part c1 + max (arcList_Len (b2 c1) div arcList_Len (b1 c1)) 1)
                 else max 0 (part c1 - max (arcList_Len (b1 c1) div arcList_Len (b2 c1)) 1))"
    by (simp add: p_def c1_def max.commute)
  obtain c2 c' where g: "replace cfg (setPart cfg c1 p) key = Some c2"
    "set_place cfg c1 key v' = Some c'"
    "part c' = (if isCacheFull cfg c1 then p else part c1)"
    "t1 c' = t1 c2" "t2 c' = key # t2 c2"
    "b1 c' = arcList_Remove key (b1 c2)" "b2 c' = arcList_Remove key (b2 c2)"
    "key \<notin> set (b1 c')" "key \<notin> set (b2 c')"
    using set_place_ghost[OF mid nk kb, of v'] unfolding pe[symmetric] by blast
  have s: "ARC_Set cfg now c key v = Some (c', None)"
    using assms(4) g(2) by (simp add: ARC_Set_def ARC_set_def c1_def)
  have pc: "part c' = (if arcList_Len (t1 c) + arcList_Len (t2 c) = cache_size cfg then p else part c)"
    using g(3) by (simp add: isCacheFull_def c1_def)
  show ?thesis
    apply (rule exI[of _ c2])
    apply (rule exI[of _ c'])
    apply (intro conjI)
            apply (rule g(1)[unfolded c1_def])
           apply (rule s)
          apply (rule pc)
         apply (rule g(4))
        apply (rule g(5))
       apply (rule g(6))
      apply (rule g(7))
     apply (rule g(8))
    apply (rule g(9))
    done
qed

theorem ARC_set_of_ghost_witness:
  "0 < cache_size arc_example_cfg \<and>
   (\<exists>c. ARC_run arc_example_cfg newARC arc_ghost_run = Some c \<and> t1 c = [3] \<and> t2 c = [1] \<and>
      b1 c = [2] \<and> b2 c = [] \<and> part c = 0 \<and>
      (\<exists>c'. ARC_Set arc_example_cfg 4 c 2 ''d'' = Some (c', None) \<and> part c' = 1 \<and>
         (\<exists>rest. t2 c' = 2 # rest) \<and> 2 \<notin> set (b1 c')))"
proof -
  have sz: "0 < cache_size arc_example_cfg" by (simp add: arc_example_cfg_def)
  have e: "map_option t1 (ARC_run arc_example_cfg newARC arc_ghost_run) = Some [3]"
    "map_option t2 (ARC_run arc_example_cfg newARC arc_ghost_run) = Some [1]"
    "map_option b1 (ARC_run arc_example_cfg newARC arc_ghost_run) = Some [2]"
    "map_option b2 (ARC_run arc_example_cfg newARC arc_ghost_run) = Some []"
    "map_option part (ARC_run arc_example_cfg newARC arc_ghost_run) = Some 0"
    by code_simp+
  obtain c where r: "ARC_run arc_example_cfg newARC arc_ghost_run = Some c"
    using ARC_run_effect[OF newARC_inv(1)[OF sz]] by blast
  have f: "t1 c = [3]" "t2 c = [1]" "b1 c = [2]" "b2 c = []" "part c = 0"
    using e r by simp_all
  have k: "2 \<in> set (b1 c) \<or> 2 \<in> set (b2 c)" using f by simp
  have ser: "(case serializeFunc arc_example_cfg of None \<Rightarrow> Inr ''d'' | Some f \<Rightarrow> f 2 ''d'') = Inr ''d''"
    by (simp add: arc_example_cfg_def)
  from ARC_set_of_ghost[OF sz r k ser, of 4] obtain c2 :: "(nat, string) ARC" and c' where
    g: "ARC_Set arc_example_cfg 4 c 2 ''d'' = Some (c', None)"
      "part c' = (if arcList_Len (t1 c) + arcList_Len (t2 c) = cache_size arc_example_cfg
                  then (if 2 \<in> set (b1 c)
                        then min (cache_size arc_example_cfg)
                               (part c + max 1 (arcList_Len (b2 c) div arcList_Len (b1 c)))
                        else max 0 (part c - max 1 (arcList_Len (b1 c) div arcList_Len (b2 c))))
                  else part c)"
      "t2 c' = 2 # t2 c2" "2 \<notin> set (b1 c')"
    by (elim exE conjE) (rule that, assumption+)
  have "part c' = 1" using g(2) f by (simp add: arcList_Len_def arc_example_cfg_def)
  then show ?thesis using sz r f g(1,3,4) by auto
qed

text \<open>
  A \<open>Set\<close> whose serialize hook fails returns the error of the hook before anything is
  changed, whatever list holds the key.
\<close>

lemma ARC_Set_serialize_error:
  assumes "(case serializeFunc cfg of None \<Rightarrow> Inr v | Some f \<Rightarrow> f key v) = Inl err"
  shows "ARC_Set cfg now c key v = Some (c, Some err)"
  using assms by (simp add: ARC_Set_def ARC_set_def)

lemma arc_ghost_state_reached:
  "ARC_run failing_serialize_cfg newARC arc_ghost_run = Some arc_ghost_state"
  by (simp add: arc_ghost_run_def arc_ghost_state_def failing_serialize_cfg_def arc_example_cfg_def
      arc_eval_defs IncrHitCount_def fun_eq_iff)

text \<open>
  Against C5 as stated: the cache of size 2 is full, key 2 is in B1 and \<open>p\<close> is 0, so
  the claim has \<open>Set(2, "bad")\<close> raise \<open>p\<close> to 1 and move key 2 to the front of T2. The
  serialize hook rejects the value: \<open>Set\<close> returns the error, \<open>p\<close> is still 0, key 2
  is still in B1 and T2 is still [1].
\<close>

theorem ARC_set_of_ghost_counterexample:
  "ARC_run failing_serialize_cfg newARC arc_ghost_run = Some arc_ghost_state \<and>
   2 \<in> set (b1 arc_ghost_state) \<and>
   arcList_Len (t1 arc_ghost_state) + arcList_Len (t2 arc_ghost_state) =
     cache_size failing_serialize_cfg \<and>
   part arc_ghost_state = 0 \<and>
   min (cache_size failing_serialize_cfg)
     (part arc_ghost_state +
      max 1 (arcList_Len (b2 arc_ghost_state) div arcList_Len (b1 arc_ghost_state))) = 1 \<and>
   ARC_Set failing_serialize_cfg 4 arc_ghost_state 2 ''bad'' =
     Some (arc_ghost_state, Some (Errorf ''cannot encode'')) \<and>
   b1 arc_ghost_state = [2] \<and> t2 arc_ghost_state = [1]"
  using arc_ghost_state_reached
  by (simp add: arc_ghost_state_def failing_serialize_cfg_def arc_example_cfg_def ARC_Set_def
      ARC_set_def arcList_Len_def)

text \<open>\<open>Remove\<close> of a live key: the entry goes, the key becomes the front of its ghost list.\<close>

lemma ARC_remove_live:
  assumes inv: "arc_inv cfg c" and k: "key \<in> set (t1 c) \<or> key \<in> set (t2 c)"
  shows "\<exists>c1. ARC_remove cfg c key = Some (c1, True) \<and> arc_inv cfg c1 \<and>
           arc_live c1 < cache_size cfg \<and> items c1 key = None \<and>
           t1 c1 = arcList_Remove key (t1 c) \<and> t2 c1 = arcList_Remove key (t2 c) \<and>
           key \<notin> set (t1 c1) \<and> key \<notin> set (t2 c1) \<and>
           b1 c1 = (if key \<in> set (t1 c) then key # b1 c else b1 c) \<and>
           b2 c1 = (if key \<in> set (t1 c) then b2 c else key # b2 c) \<and> part c1 = part c"
proof -
  have ok: "arc_lists_ok c" and d: "dom (items c) = arc_T c"
    and live: "arc_live c \<le> cache_size cfg" using inv by (simp_all add: arc_inv_def)
  obtain c1 r where g: "ARC_remove cfg c key = Some (c1, r)" and i: "arc_inv cfg c1"
    using ARC_remove_effect[OF inv] by blast
  obtain it where it: "items c key = Some it" using k d by (auto simp: arc_T_def)
  have okD: "distinct (t1 c)" "distinct (t2 c)"
    "key \<in> set (t1 c) \<Longrightarrow> key \<notin> set (t2 c)" "key \<in> set (t2 c) \<Longrightarrow> key \<notin> set (t1 c)"
    using ok unfolding arc_lists_ok_iff by blast+
  show ?thesis
  proof (cases "key \<in> set (t1 c)")
    case True
    define c' where "c' = call_evictedFunc cfg key (item_value it)
                   (c\<lparr>t1 := arcList_Remove key (t1 c), items := (items c)(key := None),
                      b1 := arcList_PushFront key (b1 c)\<rparr>)"
    have fs: "t1 c' = arcList_Remove key (t1 c)" "t2 c' = t2 c"
      "b1 c' = arcList_PushFront key (b1 c)" "b2 c' = b2 c" by (simp_all add: c'_def)
    note m = to_ghost_t1_move[OF ok True fs]
    have n2: "arcList_Remove key (t2 c) = t2 c" using okD(3)[OF True]
      by (simp add: arcList_Remove_def remove1_idem)
    have e: "c1 = c'" "r = True" using g remove_t1[OF True it, of cfg] by (simp_all add: c'_def)
    have "arc_live c1 < cache_size cfg" using m(3) live e by simp
    moreover have "items c1 key = None" "part c1 = part c" by (simp_all add: e c'_def)
    moreover have "key \<notin> set (t1 c1)" "key \<notin> set (t2 c1)"
      using okD True by (simp_all add: e fs set_Remove)
    ultimately show ?thesis using g i e True m(6) n2 fs by simp
  next
    case False
    then have t2: "key \<in> set (t2 c)" using k by simp
    define c' where "c' = call_evictedFunc cfg key (item_value it)
                   (c\<lparr>t2 := arcList_Remove key (t2 c), items := (items c)(key := None),
                      b2 := arcList_PushFront key (b2 c)\<rparr>)"
    have fs: "t1 c' = t1 c" "t2 c' = arcList_Remove key (t2 c)"
      "b1 c' = b1 c" "b2 c' = arcList_PushFront key (b2 c)" by (simp_all add: c'_def)
    note m = to_ghost_t2_move[OF ok t2 fs]
    have n1: "arcList_Remove key (t1 c) = t1 c" using False
      by (simp add: arcList_Remove_def remove1_idem)
    have e: "c1 = c'" "r = True" using g remove_t2[OF False t2 it, of cfg] by (simp_all add: c'_def)
    have "arc_live c1 < cache_size cfg" using m(3) live e by simp
    moreover have "items c1 key = None" "part c1 = part c" by (simp_all add: e c'_def)
    moreover have "key \<notin> set (t1 c1)" "key \<notin> set (t2 c1)"
      using okD False t2 by (simp_all add: e fs set_Remove)
    ultimately show ?thesis using g i e False m(6) n1 fs by simp
  qed
qed

text \<open>
  C9, amended. In a state reached from a fresh cache, \<open>Remove\<close> of a key of T1 (of T2) returns
  true, deletes the entry and puts the key at the front of B1 (of B2); a \<open>Set\<close> of that
  key right after, with a serialize hook that does not fail, finds the key in its ghost
  list: the key becomes the front of T2, is not in T1, and has left the ghost list. The
  cache is not full at that moment, so \<open>replace\<close> evicts nothing and \<open>p\<close> stays.
\<close>

theorem ARC_set_after_remove:
  assumes "0 < cache_size cfg" and "ARC_run cfg newARC ops = Some c"
    and "key \<in> set (t1 c) \<or> key \<in> set (t2 c)"
    and "(case serializeFunc cfg of None \<Rightarrow> Inr v | Some f \<Rightarrow> f key v) = Inr v'"
  shows "\<exists>c1 c2. ARC_Remove cfg c key = Some (c1, True) \<and> items c1 key = None \<and>
           key \<notin> set (t1 c1) \<and> key \<notin> set (t2 c1) \<and>
           b1 c1 = (if key \<in> set (t1 c) then key # b1 c else b1 c) \<and>
           b2 c1 = (if key \<in> set (t1 c) then b2 c else key # b2 c) \<and>
           ARC_Set cfg now c1 key v = Some (c2, None) \<and>
           t2 c2 = key # t2 c1 \<and> t1 c2 = t1 c1 \<and> key \<notin> set (t1 c2) \<and>
           b1 c2 = b1 c \<and> b2 c2 = b2 c \<and> part c2 = part c \<and> items c2 key \<noteq> None"
proof -
  have inv: "arc_inv cfg c" by (rule ARC_reached(1)[OF assms(1,2)])
  have ok: "arc_lists_ok c" using inv by (simp add: arc_inv_def)
  have nb: "key \<notin> set (b1 c)" "key \<notin> set (b2 c)"
    using assms(3) ok unfolding arc_lists_ok_iff by blast+
  obtain c1 where r: "ARC_remove cfg c key = Some (c1, True)" and i1: "arc_inv cfg c1"
    and l1: "arc_live c1 < cache_size cfg" and it1: "items c1 key = None"
    and f1: "key \<notin> set (t1 c1)" "key \<notin> set (t2 c1)"
      "b1 c1 = (if key \<in> set (t1 c) then key # b1 c else b1 c)"
      "b2 c1 = (if key \<in> set (t1 c) then b2 c else key # b2 c)" "part c1 = part c"
    using ARC_remove_live[OF inv assms(3)] by blast
  define cm where "cm = set_entry cfg now c1 key v'"
  have mid: "arc_mid cfg key cm" unfolding cm_def by (rule set_entry_mid(1)[OF i1])
  have nk: "key \<notin> arc_T cm" using f1(1,2) by (simp add: arc_T_def cm_def)
  have kb: "key \<in> arc_B cm" using f1(3,4) by (auto simp: arc_B_def cm_def)
  have nf: "\<not> isCacheFull cfg cm" using l1 by (simp add: isCacheFull_live cm_def arc_live_def)
  obtain p c2 c' where g: "replaced cfg (setPart cfg cm p) c2"
    "set_place cfg cm key v' = Some c'"
    "part c' = (if isCacheFull cfg cm then p else part cm)"
    "t1 c' = t1 c2" "t2 c' = key # t2 c2"
    "b1 c' = arcList_Remove key (b1 c2)" "b2 c' = arcList_Remove key (b2 c2)"
    "items c' = items c2"
    using set_place_ghost[OF mid nk kb, of v'] by blast
  have same: "c2 = setPart cfg cm p" using g(1) nf by (auto simp: replaced_def)
  have s: "ARC_Set cfg now c1 key v = Some (c', None)"
    using assms(4) g(2) by (simp add: ARC_Set_def ARC_set_def cm_def)
  have t: "t2 c' = key # t2 c1" "t1 c' = t1 c1" using g(4,5) same by (simp_all add: cm_def)
  have b: "b1 c' = b1 c" "b2 c' = b2 c"
    using g(6,7) same f1(3,4) nb by (auto simp: cm_def arcList_Remove_def remove1_idem)
  have pp: "part c' = part c" using g(3) nf f1(5) by (simp add: cm_def)
  have "key \<in> dom (items cm)" by (simp add: cm_def)
  then have itn: "items c' key \<noteq> None" using g(8) same by auto
  show ?thesis
    apply (rule exI[of _ c1])
    apply (rule exI[of _ c'])
    apply (intro conjI)
                 apply (simp add: ARC_Remove_def r)
                apply (rule it1)
               apply (rule f1(1))
              apply (rule f1(2))
             apply (rule f1(3))
            apply (rule f1(4))
           apply (rule s)
          apply (rule t(1))
         apply (rule t(2))
        apply (simp add: t(2) f1(1))
       apply (rule b(1))
      apply (rule b(2))
     apply (rule pp)
    apply (rule itn)
    done
qed

theorem ARC_set_after_remove_witness:
  "0 < cache_size arc_example_cfg \<and>
   (\<exists>c. ARC_run arc_example_cfg newARC arc_ghost_run = Some c \<and> t1 c = [3] \<and> t2 c = [1] \<and>
      (\<exists>c1 c2. ARC_Remove arc_example_cfg c 3 = Some (c1, True) \<and> items c1 3 = None \<and>
         b1 c1 = 3 # b1 c \<and>
         ARC_Set arc_example_cfg 4 c1 3 ''z'' = Some (c2, None) \<and> t2 c2 = 3 # t2 c1 \<and>
         3 \<notin> set (t1 c2) \<and> b1 c2 = b1 c))"
proof -
  have sz: "0 < cache_size arc_example_cfg" by (simp add: arc_example_cfg_def)
  have e: "map_option t1 (ARC_run arc_example_cfg newARC arc_ghost_run) = Some [3]"
    "map_option t2 (ARC_run arc_example_cfg newARC arc_ghost_run) = Some [1]"
    by code_simp+
  obtain c where r: "ARC_run arc_example_cfg newARC arc_ghost_run = Some c"
    using ARC_run_effect[OF newARC_inv(1)[OF sz]] by blast
  have f: "t1 c = [3]" "t2 c = [1]" using e r by simp_all
  have k: "3 \<in> set (t1 c) \<or> 3 \<in> set (t2 c)" using f by simp
  have ser: "(case serializeFunc arc_example_cfg of None \<Rightarrow> Inr ''z'' | Some f \<Rightarrow> f 3 ''z'') = Inr ''z''"
    by (simp add: arc_example_cfg_def)
  from ARC_set_after_remove[OF sz r k ser, of 4] obtain c1 c2 where
    g: "ARC_Remove arc_example_cfg c 3 = Some (c1, True)" "items c1 3 = None"
      "b1 c1 = (if 3 \<in> set (t1 c) then 3 # b1 c else b1 c)"
      "ARC_Set arc_example_cfg 4 c1 3 ''z'' = Some (c2, None)" "t2 c2 = 3 # t2 c1"
      "3 \<notin> set (t1 c2)" "b1 c2 = b1 c"
    by (elim exE conjE) (rule that, assumption+)
  have "b1 c1 = 3 # b1 c" using g(3) f by simp
  then show ?thesis using sz r f g(1,2,4-7) by auto
qed

lemma arc_two_state_reached:
  "ARC_run failing_serialize_cfg newARC arc_two_run = Some arc_two_state"
  by (simp add: arc_two_run_def arc_two_state_def failing_serialize_cfg_def arc_example_cfg_def
      arc_eval_defs fun_eq_iff)

text \<open>
  Against C9 as stated: key 1 is in T1, \<open>Remove(1)\<close> returns true and puts it at the front
  of B1, so the claim has the \<open>Set(1, "bad")\<close> that follows place key 1 at the front of
  T2. The serialize hook rejects the value: \<open>Set\<close> returns the error, T2 is still empty,
  key 1 is still in B1 and has no entry.
\<close>

theorem ARC_set_after_remove_counterexample:
  "ARC_run failing_serialize_cfg newARC arc_two_run = Some arc_two_state \<and>
   1 \<in> set (t1 arc_two_state) \<and>
   ARC_Remove failing_serialize_cfg arc_two_state 1 = Some (arc_removed_state, True) \<and>
   ARC_Set failing_serialize_cfg 3 arc_removed_state 1 ''bad'' =
     Some (arc_removed_state, Some (Errorf ''cannot encode'')) \<and>
   t1 arc_removed_state = [2] \<and> t2 arc_removed_state = [] \<and> b1 arc_removed_state = [1] \<and>
   items arc_removed_state 1 = None"
  using arc_two_state_reached
  by (simp add: arc_two_state_def arc_removed_state_def failing_serialize_cfg_def
      arc_example_cfg_def ARC_Set_def ARC_set_def ARC_Remove_def ARC_remove_def arcList_Has_def
      arcList_Remove_def arcList_PushFront_def Let_def fun_eq_iff)

text \<open>What a write that the serialize hook lets through stores under the key.\<close>

lemma LRU_set_stores:
  assumes "(case serializeFunc cfg of None \<Rightarrow> Inr v | Some s \<Rightarrow> s key v) = Inr v'"
  shows "\<exists>c' it. LRUCache_set cfg now c key v = (c', None) \<and>
           LRUCache_items c' key = Some it \<and> item_value it = v'"
proof (cases "LRUCache_items c key")
  case None
  then show ?thesis using assms
    by (cases "expiration cfg") (simp_all add: LRUCache_set_def LRUCache_items_def Let_def)
next
  case (Some old)
  have "item_key old = key" by (rule LRU_items_SomeD(1)[OF Some])
  then show ?thesis using assms Some
    by (cases "expiration cfg") (simp_all add: LRUCache_set_def LRUCache_items_def Let_def)
qed

lemma LRU_set_expiration_items:
  "LRUCache_items (LRUCache_set_expiration key t c) key =
     map_option (\<lambda>it. it\<lparr>item_expiration := Some t\<rparr>) (LRUCache_items c key)"
proof -
  have "find (\<lambda>it. item_key it = key)
          (map (\<lambda>it. if item_key it = key then it\<lparr>item_expiration := Some t\<rparr> else it) xs) =
        map_option (\<lambda>it. it\<lparr>item_expiration := Some t\<rparr>) (find (\<lambda>it. item_key it = key) xs)"
    for xs :: "('a, 'b) lruItem list"
    by (induction xs) simp_all
  then show ?thesis by (simp add: LRUCache_items_def LRUCache_set_expiration_def)
qed

lemma LRU_load_cb_stores:
  assumes "(case serializeFunc cfg of None \<Rightarrow> Inr v | Some s \<Rightarrow> s key v) = Inr v'"
  shows "\<exists>c' it. LRUCache_load_cb cfg now key v ttl None c = Some (c', Inr v) \<and>
           LRUCache_items c' key = Some it \<and> item_value it = v'"
proof -
  obtain c1 it where s: "LRUCache_set cfg now c key v = (c1, None)"
    "LRUCache_items c1 key = Some it" "item_value it = v'"
    using LRU_set_stores[OF assms] by blast
  show ?thesis using s
    by (cases ttl) (simp_all add: LRUCache_load_cb_def LRU_set_expiration_items)
qed

lemma ARC_set_stores:
  assumes inv: "arc_inv cfg c"
    and ser: "(case serializeFunc cfg of None \<Rightarrow> Inr v | Some s \<Rightarrow> s key v) = Inr v'"
  shows "\<exists>c' it. ARC_set cfg now c key v = Some (c', None) \<and>
           items c' key = Some it \<and> item_value it = v'"
proof -
  note m = set_entry_mid[OF inv, where key=key and now=now and v=v']
  obtain c' where c': "set_place cfg (set_entry cfg now c key v') key v' = Some c'"
    and i: "arc_inv cfg c'" and k: "key \<in> arc_T c'"
    using set_place_effect[OF m(1)] by blast
  have kd: "key \<in> dom (items c')" using i k by (simp add: arc_inv_def)
  have le: "items c' \<subseteq>\<^sub>m items (set_entry cfg now c key v')"
    using set_place_keeps[OF c'] by simp
  have e: "items c' key = items (set_entry cfg now c key v') key"
    using le kd by (simp add: map_le_def)
  obtain it where it: "items (set_entry cfg now c key v') key = Some it" "item_value it = v'"
    by (cases "items c key"; cases "expiration cfg") (simp_all add: set_entry_def)
  have "ARC_set cfg now c key v = Some (c', None)" using ser c' by (simp add: ARC_set_def)
  then show ?thesis using e it by simp
qed

lemma ARC_load_cb_stores:
  assumes inv: "arc_inv cfg c"
    and ser: "(case serializeFunc cfg of None \<Rightarrow> Inr v | Some s \<Rightarrow> s key v) = Inr v'"
  shows "\<exists>c' it. ARC_load_cb cfg now key v ttl None c = Some (c', Inr v) \<and>
           items c' key = Some it \<and> item_value it = v'"
proof -
  obtain c1 it where s: "ARC_set cfg now c key v = Some (c1, None)"
    "items c1 key = Some it" "item_value it = v'"
    using ARC_set_stores[OF inv ser] by blast
  show ?thesis using s
    by (cases ttl) (simp_all add: ARC_load_cb_def ARC_set_expiration_def)
qed

text \<open>
  C4. When the entry stored under the key has expired at the clock reading of the
  lookup, \<open>Get\<close> counts a miss and no hit, removes the entry, calls \<open>evictedFunc\<close> (if
  set) with the key and the stored value, and goes on as \<open>getWithLoader\<close> in the state
  \<open>c1\<close> that the lookup left. Without a loader \<open>Get\<close> returns \<open>KeyNotFoundError\<close>. With a
  loader \<open>f\<close>, \<open>Get\<close> calls \<open>f ctx key\<close> and its outcome decides: a panic is returned as
  the error \<open>loader panics: r\<close>, an error of the loader is returned, and a value is
  handed to the callback of \<open>getWithLoader\<close>, which, if the serialize hook lets the value
  through, stores it under the key and returns it. \<open>Get\<close> returns in each case, and the
  loader path does not touch the counters. For LRU in any state, for ARC in any state
  reached from a fresh cache.
\<close>

theorem expired_read_is_miss:
  assumes "LRUCache_items cl key = Some itl" and "IsExpired now itl None"
    and "0 < cache_size cfg" and "ARC_run cfg newARC ops = Some ca"
    and "items ca key = Some ita" and "IsExpired now ita None"
  shows "(\<exists>c1. LRUCache_getValue cfg now cl key False = (c1, Inl KeyNotFoundError) \<and>
            lru_stats c1 = IncrMissCount (lru_stats cl) \<and> LRUCache_items c1 key = None \<and>
            lru_evicted_calls c1 =
              lru_evicted_calls cl @ (if evictedFunc cfg then [(key, item_value itl)] else []) \<and>
            LRUCache_GetWithContext cfg now now' cl ctx key =
              LRUCache_getWithLoader cfg now' c1 ctx key True \<and>
            LRUCache_GetWithContext cfg now now' cl ctx key =
              (case loaderExpireFunc cfg of
                 None \<Rightarrow> Some (c1, Inl KeyNotFoundError)
               | Some f \<Rightarrow>
                   (case f ctx key of
                      LoaderPanics r \<Rightarrow> Some (c1, Inl (Errorf (''loader panics: '' @ r)))
                    | LoaderReturns v ttl e \<Rightarrow> LRUCache_load_cb cfg now' key v ttl e c1)) \<and>
            (\<forall>f v ttl e. loaderExpireFunc cfg = Some f \<longrightarrow> f ctx key = LoaderReturns v ttl (Some e) \<longrightarrow>
               LRUCache_GetWithContext cfg now now' cl ctx key = Some (c1, Inl e)) \<and>
            (\<forall>f v ttl v'. loaderExpireFunc cfg = Some f \<longrightarrow> f ctx key = LoaderReturns v ttl None \<longrightarrow>
               (case serializeFunc cfg of None \<Rightarrow> Inr v | Some s \<Rightarrow> s key v) = Inr v' \<longrightarrow>
               (\<exists>c' it. LRUCache_GetWithContext cfg now now' cl ctx key = Some (c', Inr v) \<and>
                  LRUCache_items c' key = Some it \<and> item_value it = v')) \<and>
            map_option (lru_stats \<circ> fst) (LRUCache_GetWithContext cfg now now' cl ctx key) =
              Some (IncrMissCount (lru_stats cl))) \<and>
         (\<exists>c1. ARC_getValue cfg now ca key False = Some (c1, Inl KeyNotFoundError) \<and>
            arc_stats c1 = IncrMissCount (arc_stats ca) \<and> items c1 key = None \<and>
            key \<notin> set (t1 c1) \<and> key \<notin> set (t2 c1) \<and>
            evicted_calls c1 =
              evicted_calls ca @ (if evictedFunc cfg then [(key, item_value ita)] else []) \<and>
            ARC_GetWithContext cfg now now' ca ctx key =
              ARC_getWithLoader cfg now' c1 ctx key True \<and>
            ARC_GetWithContext cfg now now' ca ctx key =
              (case loaderExpireFunc cfg of
                 None \<Rightarrow> Some (c1, Inl KeyNotFoundError)
               | Some f \<Rightarrow>
                   (case f ctx key of
                      LoaderPanics r \<Rightarrow> Some (c1, Inl (Errorf (''loader panics: '' @ r)))
                    | LoaderReturns v ttl e \<Rightarrow> ARC_load_cb cfg now' key v ttl e c1)) \<and>
            (\<forall>f v ttl e. loaderExpireFunc cfg = Some f \<longrightarrow> f ctx key = LoaderReturns v ttl (Some e) \<longrightarrow>
               ARC_GetWithContext cfg now now' ca ctx key = Some (c1, Inl e)) \<and>
            (\<forall>f v ttl v'. loaderExpireFunc cfg = Some f \<longrightarrow> f ctx key = LoaderReturns v ttl None \<longrightarrow>
               (case serializeFunc cfg of None \<Rightarrow> Inr v | Some s \<Rightarrow> s key v) = Inr v' \<longrightarrow>
               (\<exists>c' it. ARC_GetWithContext cfg now now' ca ctx key = Some (c', Inr v) \<and>
                  items c' key = Some it \<and> item_value it = v')) \<and>
            map_option (arc_stats \<circ> fst) (ARC_GetWithContext cfg now now' ca ctx key) =
              Some (IncrMissCount (arc_stats ca)))"
proof -
  have kl: "item_key itl = key" by (rule LRU_items_SomeD(1)[OF assms(1)])
  define c1 where "c1 = LRUCache_count_miss False (LRUCache_removeElement cfg itl cl)"
  have g: "LRUCache_getValue cfg now cl key False = (c1, Inl KeyNotFoundError)"
    using assms(1,2) by (simp add: LRUCache_getValue_def c1_def)
  have f: "lru_stats c1 = IncrMissCount (lru_stats cl)" "LRUCache_items c1 key = None"
    "lru_evicted_calls c1 =
       lru_evicted_calls cl @ (if evictedFunc cfg then [(key, item_value itl)] else [])"
    using kl by (simp_all add: c1_def LRUCache_items_def find_filter_self)
  have w: "LRUCache_GetWithContext cfg now now' cl ctx key =
             LRUCache_getWithLoader cfg now' c1 ctx key True"
    using g by (simp add: LRUCache_GetWithContext_def LRUCache_get_def)
  have o: "LRUCache_getWithLoader cfg now' c1 ctx key True =
             (case loaderExpireFunc cfg of
                None \<Rightarrow> Some (c1, Inl KeyNotFoundError)
              | Some f \<Rightarrow>
                  (case f ctx key of
                     LoaderPanics r \<Rightarrow> Some (c1, Inl (Errorf (''loader panics: '' @ r)))
                   | LoaderReturns v ttl e \<Rightarrow> LRUCache_load_cb cfg now' key v ttl e c1))"
    by (auto simp: LRUCache_getWithLoader_def load_def Group_Do_def
         split: option.splits loader_result.splits)
  have oe: "\<forall>f v ttl e. loaderExpireFunc cfg = Some f \<longrightarrow> f ctx key = LoaderReturns v ttl (Some e) \<longrightarrow>
               LRUCache_GetWithContext cfg now now' cl ctx key = Some (c1, Inl e)"
    using w o by (simp add: LRUCache_load_cb_def)
  have ov: "\<forall>f v ttl v'. loaderExpireFunc cfg = Some f \<longrightarrow> f ctx key = LoaderReturns v ttl None \<longrightarrow>
               (case serializeFunc cfg of None \<Rightarrow> Inr v | Some s \<Rightarrow> s key v) = Inr v' \<longrightarrow>
               (\<exists>c' it. LRUCache_GetWithContext cfg now now' cl ctx key = Some (c', Inr v) \<and>
                  LRUCache_items c' key = Some it \<and> item_value it = v')"
  proof (intro allI impI)
    fix lf v ttl v'
    assume a: "loaderExpireFunc cfg = Some lf" "lf ctx key = LoaderReturns v ttl None"
      "(case serializeFunc cfg of None \<Rightarrow> Inr v | Some s \<Rightarrow> s key v) = Inr v'"
    have "LRUCache_GetWithContext cfg now now' cl ctx key =
            LRUCache_load_cb cfg now' key v ttl None c1"
      using w o a(1,2) by simp
    then show "\<exists>c' it. LRUCache_GetWithContext cfg now now' cl ctx key = Some (c', Inr v) \<and>
                  LRUCache_items c' key = Some it \<and> item_value it = v'"
      using LRU_load_cb_stores[OF a(3), of now' ttl c1] by simp
  qed
  obtain c' r where "LRUCache_getWithLoader cfg now' c1 ctx key True = Some (c', r)"
    "lru_stats c' = lru_stats c1"
    using LRU_getWithLoader_stats[of cfg now' c1 ctx key True] by auto
  then have s: "map_option (lru_stats \<circ> fst) (LRUCache_GetWithContext cfg now now' cl ctx key) =
              Some (IncrMissCount (lru_stats cl))" using w f(1) by simp
  note wo = w[unfolded o]
  have lru: "\<exists>c1. LRUCache_getValue cfg now cl key False = (c1, Inl KeyNotFoundError) \<and>
            lru_stats c1 = IncrMissCount (lru_stats cl) \<and> LRUCache_items c1 key = None \<and>
            lru_evicted_calls c1 =
              lru_evicted_calls cl @ (if evictedFunc cfg then [(key, item_value itl)] else []) \<and>
            LRUCache_GetWithContext cfg now now' cl ctx key =
              LRUCache_getWithLoader cfg now' c1 ctx key True \<and>
            LRUCache_GetWithContext cfg now now' cl ctx key =
              (case loaderExpireFunc cfg of
                 None \<Rightarrow> Some (c1, Inl KeyNotFoundError)
               | Some f \<Rightarrow>
                   (case f ctx key of
                      LoaderPanics r \<Rightarrow> Some (c1, Inl (Errorf (''loader panics: '' @ r)))
                    | LoaderReturns v ttl e \<Rightarrow> LRUCache_load_cb cfg now' key v ttl e c1)) \<and>
            (\<forall>f v ttl e. loaderExpireFunc cfg = Some f \<longrightarrow> f ctx key = LoaderReturns v ttl (Some e) \<longrightarrow>
               LRUCache_GetWithContext cfg now now' cl ctx key = Some (c1, Inl e)) \<and>
            (\<forall>f v ttl v'. loaderExpireFunc cfg = Some f \<longrightarrow> f ctx key = LoaderReturns v ttl None \<longrightarrow>
               (case serializeFunc cfg of None \<Rightarrow> Inr v | Some s \<Rightarrow> s key v) = Inr v' \<longrightarrow>
               (\<exists>c' it. LRUCache_GetWithContext cfg now now' cl ctx key = Some (c', Inr v) \<and>
                  LRUCache_items c' key = Some it \<and> item_value it = v')) \<and>
            map_option (lru_stats \<circ> fst) (LRUCache_GetWithContext cfg now now' cl ctx key) =
              Some (IncrMissCount (lru_stats cl))"
    apply (rule exI[of _ c1])
    apply (intro conjI)
            apply (rule g)
           apply (rule f(1))
          apply (rule f(2))
         apply (rule f(3))
        apply (rule w)
       apply (rule wo)
      apply (rule oe)
     apply (rule ov)
    apply (rule s)
    done
  note r = ARC_reached[OF assms(3,4)]
  obtain c2 where a: "ARC_getValue cfg now ca key False = Some (c2, Inl KeyNotFoundError)"
    "arc_inv cfg c2" "arc_stats c2 = IncrMissCount (arc_stats ca)" "items c2 key = None"
    "key \<notin> set (t1 c2)" "key \<notin> set (t2 c2)"
    "evicted_calls c2 = evicted_calls ca @ (if evictedFunc cfg then [(key, item_value ita)] else [])"
    using ARC_expired_read[OF r assms(5,6)] by blast
  have wa: "ARC_GetWithContext cfg now now' ca ctx key = ARC_getWithLoader cfg now' c2 ctx key True"
    using a(1) by (simp add: ARC_GetWithContext_def ARC_get_def)
  have oa: "ARC_getWithLoader cfg now' c2 ctx key True =
             (case loaderExpireFunc cfg of
                None \<Rightarrow> Some (c2, Inl KeyNotFoundError)
              | Some f \<Rightarrow>
                  (case f ctx key of
                     LoaderPanics r \<Rightarrow> Some (c2, Inl (Errorf (''loader panics: '' @ r)))
                   | LoaderReturns v ttl e \<Rightarrow> ARC_load_cb cfg now' key v ttl e c2))"
    by (auto simp: ARC_getWithLoader_def load_def Group_Do_def
         split: option.splits loader_result.splits)
  have oae: "\<forall>f v ttl e. loaderExpireFunc cfg = Some f \<longrightarrow> f ctx key = LoaderReturns v ttl (Some e) \<longrightarrow>
               ARC_GetWithContext cfg now now' ca ctx key = Some (c2, Inl e)"
    using wa oa by (simp add: ARC_load_cb_def)
  have oav: "\<forall>f v ttl v'. loaderExpireFunc cfg = Some f \<longrightarrow> f ctx key = LoaderReturns v ttl None \<longrightarrow>
               (case serializeFunc cfg of None \<Rightarrow> Inr v | Some s \<Rightarrow> s key v) = Inr v' \<longrightarrow>
               (\<exists>c' it. ARC_GetWithContext cfg now now' ca ctx key = Some (c', Inr v) \<and>
                  items c' key = Some it \<and> item_value it = v')"
  proof (intro allI impI)
    fix lf v ttl v'
    assume b: "loaderExpireFunc cfg = Some lf" "lf ctx key = LoaderReturns v ttl None"
      "(case serializeFunc cfg of None \<Rightarrow> Inr v | Some s \<Rightarrow> s key v) = Inr v'"
    have "ARC_GetWithContext cfg now now' ca ctx key = ARC_load_cb cfg now' key v ttl None c2"
      using wa oa b(1,2) by simp
    then show "\<exists>c' it. ARC_GetWithContext cfg now now' ca ctx key = Some (c', Inr v) \<and>
                  items c' key = Some it \<and> item_value it = v'"
      using ARC_load_cb_stores[OF a(2) b(3), of now' ttl] by simp
  qed
  obtain c'' r'' where l: "ARC_getWithLoader cfg now' c2 ctx key True = Some (c'', r'')"
    using ARC_getWithLoader_effect[OF a(2)] by blast
  have "arc_stats c'' = arc_stats c2" by (rule ARC_getWithLoader_keeps(1)[OF l])
  then have sa: "map_option (arc_stats \<circ> fst) (ARC_GetWithContext cfg now now' ca ctx key) =
              Some (IncrMissCount (arc_stats ca))" using wa l a(3) by simp
  note wao = wa[unfolded oa]
  have arc: "\<exists>c1. ARC_getValue cfg now ca key False = Some (c1, Inl KeyNotFoundError) \<and>
            arc_stats c1 = IncrMissCount (arc_stats ca) \<and> items c1 key = None \<and>
            key \<notin> set (t1 c1) \<and> key \<notin> set (t2 c1) \<and>
            evicted_calls c1 =
              evicted_calls ca @ (if evictedFunc cfg then [(key, item_value ita)] else []) \<and>
            ARC_GetWithContext cfg now now' ca ctx key =
              ARC_getWithLoader cfg now' c1 ctx key True \<and>
            ARC_GetWithContext cfg now now' ca ctx key =
              (case loaderExpireFunc cfg of
                 None \<Rightarrow> Some (c1, Inl KeyNotFoundError)
               | Some f \<Rightarrow>
                   (case f ctx key of
                      LoaderPanics r \<Rightarrow> Some (c1, Inl (Errorf (''loader panics: '' @ r)))
                    | LoaderReturns v ttl e \<Rightarrow> ARC_load_cb cfg now' key v ttl e c1)) \<and>
            (\<forall>f v ttl e. loaderExpireFunc cfg = Some f \<longrightarrow> f ctx key = LoaderReturns v ttl (Some e) \<longrightarrow>
               ARC_GetWithContext cfg now now' ca ctx key = Some (c1, Inl e)) \<and>
            (\<forall>f v ttl v'. loaderExpireFunc cfg = Some f \<longrightarrow> f ctx key = LoaderReturns v ttl None \<longrightarrow>
               (case serializeFunc cfg of None \<Rightarrow> Inr v | Some s \<Rightarrow> s key v) = Inr v' \<longrightarrow>
               (\<exists>c' it. ARC_GetWithContext cfg now now' ca ctx key = Some (c', Inr v) \<and>
                  items c' key = Some it \<and> item_value it = v')) \<and>
            map_option (arc_stats \<circ> fst) (ARC_GetWithContext cfg now now' ca ctx key) =
              Some (IncrMissCount (arc_stats ca))"
    apply (rule exI[of _ c2])
    apply (intro conjI)
              apply (rule a(1))
             apply (rule a(3))
            apply (rule a(4))
           apply (rule a(5))
          apply (rule a(6))
         apply (rule a(7))
        apply (rule wa)
       apply (rule wao)
      apply (rule oae)
     apply (rule oav)
    apply (rule sa)
    done
  show ?thesis using lru arc by (rule conjI)
qed

theorem expired_read_is_miss_witness:
  "LRUCache_items lru_expiring 1 = Some expiring_item \<and> IsExpired 11 expiring_item None \<and>
   0 < cache_size loading_cfg \<and> ARC_run loading_cfg newARC arc_expiring_run = Some arc_expiring \<and>
   items arc_expiring 1 = Some expiring_item \<and>
   loaderExpireFunc loading_cfg = Some (\<lambda>ctx k. LoaderReturns ''loaded'' None None) \<and>
   serializeFunc loading_cfg = None \<and>
   (\<exists>c1. LRUCache_getValue loading_cfg 11 lru_expiring 1 False = (c1, Inl KeyNotFoundError) \<and>
      lru_stats c1 = \<lparr>hitCount = 0, missCount = 1\<rparr> \<and> LRUCache_items c1 1 = None \<and>
      lru_evicted_calls c1 = [(1, ''a'')]) \<and>
   (\<exists>c' it. LRUCache_GetWithContext loading_cfg 11 11 lru_expiring () 1 = Some (c', Inr ''loaded'') \<and>
      LRUCache_items c' 1 = Some it \<and> item_value it = ''loaded'') \<and>
   map_option (lru_stats \<circ> fst) (LRUCache_GetWithContext loading_cfg 11 11 lru_expiring () 1) =
     Some \<lparr>hitCount = 0, missCount = 1\<rparr> \<and>
   (\<exists>c1. ARC_getValue loading_cfg 11 arc_expiring 1 False = Some (c1, Inl KeyNotFoundError) \<and>
      arc_stats c1 = \<lparr>hitCount = 0, missCount = 1\<rparr> \<and> items c1 1 = None \<and>
      evicted_calls c1 = [(1, ''a'')]) \<and>
   (\<exists>c' it. ARC_GetWithContext loading_cfg 11 11 arc_expiring () 1 = Some (c', Inr ''loaded'') \<and>
      items c' 1 = Some it \<and> item_value it = ''loaded'') \<and>
   map_option (arc_stats \<circ> fst) (ARC_GetWithContext loading_cfg 11 11 arc_expiring () 1) =
     Some \<lparr>hitCount = 0, missCount = 1\<rparr>"
proof -
  have h1: "LRUCache_items lru_expiring 1 = Some expiring_item"
    by (simp add: LRUCache_items_def lru_expiring_def expiring_item_def)
  have h2: "IsExpired 11 expiring_item None" by (simp add: IsExpired_def expiring_item_def)
  have h3: "0 < cache_size loading_cfg" by (simp add: loading_cfg_def)
  have h4: "ARC_run loading_cfg newARC arc_expiring_run = Some arc_expiring"
    by (rule arc_expiring_reached_loading)
  have h5: "items arc_expiring 1 = Some expiring_item" by (simp add: arc_expiring_def)
  have h6: "loaderExpireFunc loading_cfg = Some (\<lambda>ctx k. LoaderReturns ''loaded'' None None)"
    "serializeFunc loading_cfg = None"
    by (simp_all add: loading_cfg_def)
  have e: "evictedFunc loading_cfg" "item_value expiring_item = ''a''"
    "IncrMissCount (lru_stats lru_expiring) = \<lparr>hitCount = 0, missCount = 1\<rparr>"
    "IncrMissCount (arc_stats arc_expiring) = \<lparr>hitCount = 0, missCount = 1\<rparr>"
    "lru_evicted_calls lru_expiring = []" "evicted_calls arc_expiring = []"
    by (simp_all add: loading_cfg_def expiring_item_def IncrMissCount_def lru_expiring_def
        arc_expiring_def)
  note th = expired_read_is_miss[OF h1 h2 h3 h4 h5 h2, where now'=11 and ctx="()"]
  have l1: "\<exists>c1. LRUCache_getValue loading_cfg 11 lru_expiring 1 False = (c1, Inl KeyNotFoundError) \<and>
      lru_stats c1 = \<lparr>hitCount = 0, missCount = 1\<rparr> \<and> LRUCache_items c1 1 = None \<and>
      lru_evicted_calls c1 = [(1, ''a'')]"
    using th by (auto simp: e)
  have l2: "\<exists>c' it. LRUCache_GetWithContext loading_cfg 11 11 lru_expiring () 1 = Some (c', Inr ''loaded'') \<and>
      LRUCache_items c' 1 = Some it \<and> item_value it = ''loaded''"
    using th h6 by auto
  have l3: "map_option (lru_stats \<circ> fst) (LRUCache_GetWithContext loading_cfg 11 11 lru_expiring () 1) =
     Some \<lparr>hitCount = 0, missCount = 1\<rparr>"
    using th by (auto simp: e)
  have a1: "\<exists>c1. ARC_getValue loading_cfg 11 arc_expiring 1 False = Some (c1, Inl KeyNotFoundError) \<and>
      arc_stats c1 = \<lparr>hitCount = 0, missCount = 1\<rparr> \<and> items c1 1 = None \<and>
      evicted_calls c1 = [(1, ''a'')]"
    using th by (auto simp: e)
  have a2: "\<exists>c' it. ARC_GetWithContext loading_cfg 11 11 arc_expiring () 1 = Some (c', Inr ''loaded'') \<and>
      items c' 1 = Some it \<and> item_value it = ''loaded''"
    using th h6 by auto
  have a3: "map_option (arc_stats \<circ> fst) (ARC_GetWithContext loading_cfg 11 11 arc_expiring () 1) =
     Some \<lparr>hitCount = 0, missCount = 1\<rparr>"
    using th by (auto simp: e)
  show ?thesis using h1 h2 h3 h4 h5 h6 l1 l2 l3 a1 a2 a3 by (intro conjI)
qed

text \<open>A lookup that finds a live entry leaves the entries and the calls of \<open>addedFunc\<close> alone.\<close>

lemma LRU_live_read:
  assumes "LRUCache_items c key = Some it" and "\<not> IsExpired now it None"
  shows "\<exists>c1. LRUCache_getValue cfg now c key onLoad = (c1, Inr (item_value it)) \<and>
           LRUCache_items c1 key = Some it \<and> lru_added_calls c1 = lru_added_calls c"
  using assms LRU_items_SomeD(1)[OF assms(1)]
  by (simp add: LRUCache_getValue_def LRUCache_items_def)

lemma ARC_live_read:
  assumes inv: "arc_inv cfg c" and it: "items c key = Some it" and ex: "\<not> IsExpired now it None"
  shows "\<exists>c1. ARC_getValue cfg now c key onLoad = Some (c1, Inr (item_value it)) \<and>
           items c1 = items c \<and> added_calls c1 = added_calls c"
proof -
  have d: "dom (items c) = arc_T c" using inv by (simp add: arc_inv_def)
  have kT: "key \<in> arc_T c" using it d by auto
  show ?thesis
  proof (cases "key \<in> set (t1 c)")
    case True
    show ?thesis using getValue_hit_t1[OF True it ex, of cfg onLoad]
      by (simp add: ARC_count_hit_def)
  next
    case False
    then have t2: "key \<in> set (t2 c)" using kT by (simp add: arc_T_def)
    show ?thesis using getValue_hit_t2[OF False t2 it ex, of cfg onLoad]
      by (simp add: ARC_count_hit_def)
  qed
qed

text \<open>With a loader that panics, the loader path returns the error and the state it was given.\<close>

lemma getWithLoader_panic:
  assumes "loaderExpireFunc cfg = Some f" and "f ctx key = LoaderPanics r"
  shows "LRUCache_getWithLoader cfg now' cl ctx key True =
           Some (cl, Inl (Errorf (''loader panics: '' @ r)))"
    and "ARC_getWithLoader cfg now' ca ctx key True =
           Some (ca, Inl (Errorf (''loader panics: '' @ r)))"
  using assms
  by (simp_all add: LRUCache_getWithLoader_def ARC_getWithLoader_def load_def Group_Do_def)

text \<open>
  C7. When the loader panics with a value that prints as \<open>r\<close>, \<open>Get\<close> returns (it does
  not panic) whatever the lookup has found, except that in every case in which it goes
  on to the loader (the lookup ended in an error that is or wraps \<open>KeyNotFoundError\<close>:
  no live entry, or a live entry whose deserialize hook fails with such an error) it
  returns the error \<open>loader panics: r\<close>. The state is the one the lookup left: under the
  key there is the entry that was live before, or none, and \<open>addedFunc\<close> has not been
  called. For LRU in any state, for ARC in any state reached from a fresh cache.
\<close>

theorem loader_panic_becomes_error:
  assumes "loaderExpireFunc cfg = Some f" and "f ctx key = LoaderPanics r"
    and "0 < cache_size cfg" and "ARC_run cfg newARC ops = Some ca"
  shows "(\<exists>c1 res. LRUCache_get cfg now cl key False = (c1, res) \<and>
            c1 = fst (LRUCache_getValue cfg now cl key False) \<and>
            LRUCache_GetWithContext cfg now now' cl ctx key =
              Some (c1, case res of
                          Inl err \<Rightarrow>
                            if errors_Is_KeyNotFoundError err
                            then Inl (Errorf (''loader panics: '' @ r)) else Inl err
                        | Inr v \<Rightarrow> Inr v) \<and>
            (\<not> LRUCache_has now cl key None \<longrightarrow> res = Inl KeyNotFoundError) \<and>
            LRUCache_items c1 key =
              (if LRUCache_has now cl key None then LRUCache_items cl key else None) \<and>
            lru_added_calls c1 = lru_added_calls cl) \<and>
         (\<exists>c1 res. ARC_get cfg now ca key False = Some (c1, res) \<and>
            Some c1 = map_option fst (ARC_getValue cfg now ca key False) \<and>
            ARC_GetWithContext cfg now now' ca ctx key =
              Some (c1, case res of
                          Inl err \<Rightarrow>
                            if errors_Is_KeyNotFoundError err
                            then Inl (Errorf (''loader panics: '' @ r)) else Inl err
                        | Inr v \<Rightarrow> Inr v) \<and>
            (\<not> ARC_has now ca key None \<longrightarrow> res = Inl KeyNotFoundError) \<and>
            items c1 key = (if ARC_has now ca key None then items ca key else None) \<and>
            added_calls c1 = added_calls ca)"
proof -
  note p = getWithLoader_panic[OF assms(1,2)]
  obtain c1 res where g: "LRUCache_get cfg now cl key False = (c1, res)"
    by (cases "LRUCache_get cfg now cl key False") auto
  have s: "c1 = fst (LRUCache_getValue cfg now cl key False)"
    using g by (auto simp: LRUCache_get_def split: prod.splits sum.splits option.splits)
  have w: "LRUCache_GetWithContext cfg now now' cl ctx key =
             Some (c1, case res of
                         Inl err \<Rightarrow>
                           if errors_Is_KeyNotFoundError err
                           then Inl (Errorf (''loader panics: '' @ r)) else Inl err
                       | Inr v \<Rightarrow> Inr v)"
    using g by (cases res) (simp_all add: LRUCache_GetWithContext_def p(1))
  have f: "(\<not> LRUCache_has now cl key None \<longrightarrow> res = Inl KeyNotFoundError) \<and>
           LRUCache_items c1 key =
             (if LRUCache_has now cl key None then LRUCache_items cl key else None) \<and>
           lru_added_calls c1 = lru_added_calls cl"
  proof (cases "LRUCache_has now cl key None")
    case False
    obtain c2 where m: "LRUCache_getValue cfg now cl key False = (c2, Inl KeyNotFoundError)"
      "LRUCache_items c2 key = None" "lru_added_calls c2 = lru_added_calls cl"
      using LRU_miss[OF False] by blast
    have "LRUCache_get cfg now cl key False = (c2, Inl KeyNotFoundError)"
      using m(1) by (simp add: LRUCache_get_def)
    then show ?thesis using g m False by simp
  next
    case True
    then obtain it where i: "LRUCache_items cl key = Some it" "\<not> IsExpired now it None"
      by (auto simp: LRUCache_has_def split: option.splits)
    obtain c2 where h: "LRUCache_getValue cfg now cl key False = (c2, Inr (item_value it))"
      "LRUCache_items c2 key = Some it" "lru_added_calls c2 = lru_added_calls cl"
      using LRU_live_read[OF i] by blast
    have "c1 = c2" using s h(1) by simp
    then show ?thesis using h i True by simp
  qed
  have lru: "\<exists>c1 res. LRUCache_get cfg now cl key False = (c1, res) \<and>
            c1 = fst (LRUCache_getValue cfg now cl key False) \<and>
            LRUCache_GetWithContext cfg now now' cl ctx key =
              Some (c1, case res of
                          Inl err \<Rightarrow>
                            if errors_Is_KeyNotFoundError err
                            then Inl (Errorf (''loader panics: '' @ r)) else Inl err
                        | Inr v \<Rightarrow> Inr v) \<and>
            (\<not> LRUCache_has now cl key None \<longrightarrow> res = Inl KeyNotFoundError) \<and>
            LRUCache_items c1 key =
              (if LRUCache_has now cl key None then LRUCache_items cl key else None) \<and>
            lru_added_calls c1 = lru_added_calls cl"
    using g s w f by blast
  have inv: "arc_inv cfg ca" by (rule ARC_reached(1)[OF assms(3,4)])
  have v: "\<exists>c2 rv. ARC_getValue cfg now ca key False = Some (c2, rv) \<and>
             (\<not> ARC_has now ca key None \<longrightarrow> rv = Inl KeyNotFoundError) \<and>
             (ARC_has now ca key None \<longrightarrow> (\<exists>x. rv = Inr x)) \<and>
             items c2 key = (if ARC_has now ca key None then items ca key else None) \<and>
             added_calls c2 = added_calls ca"
  proof (cases "ARC_has now ca key None")
    case False
    show ?thesis using ARC_miss[OF inv False, where onLoad=False] False by auto
  next
    case True
    then obtain it where i: "items ca key = Some it" "\<not> IsExpired now it None"
      by (auto simp: ARC_has_def split: option.splits)
    show ?thesis using ARC_live_read[OF inv i, where onLoad=False] True by auto
  qed
  then obtain c2 rv where a: "ARC_getValue cfg now ca key False = Some (c2, rv)"
    "\<not> ARC_has now ca key None \<longrightarrow> rv = Inl KeyNotFoundError"
    "items c2 key = (if ARC_has now ca key None then items ca key else None)"
    "added_calls c2 = added_calls ca"
    by blast
  have "\<exists>res2. ARC_get cfg now ca key False = Some (c2, res2) \<and>
           (\<not> ARC_has now ca key None \<longrightarrow> res2 = Inl KeyNotFoundError)"
    using a(1,2) by (cases rv; cases "deserializeFunc cfg") (simp_all add: ARC_get_def)
  then obtain res2 where ga: "ARC_get cfg now ca key False = Some (c2, res2)"
    "\<not> ARC_has now ca key None \<longrightarrow> res2 = Inl KeyNotFoundError"
    by blast
  have wa: "ARC_GetWithContext cfg now now' ca ctx key =
             Some (c2, case res2 of
                         Inl err \<Rightarrow>
                           if errors_Is_KeyNotFoundError err
                           then Inl (Errorf (''loader panics: '' @ r)) else Inl err
                       | Inr v \<Rightarrow> Inr v)"
    using ga(1) by (cases res2) (simp_all add: ARC_GetWithContext_def p(2))
  have sa: "Some c2 = map_option fst (ARC_getValue cfg now ca key False)" using a(1) by simp
  have arc: "\<exists>c1 res. ARC_get cfg now ca key False = Some (c1, res) \<and>
            Some c1 = map_option fst (ARC_getValue cfg now ca key False) \<and>
            ARC_GetWithContext cfg now now' ca ctx key =
              Some (c1, case res of
                          Inl err \<Rightarrow>
                            if errors_Is_KeyNotFoundError err
                            then Inl (Errorf (''loader panics: '' @ r)) else Inl err
                        | Inr v \<Rightarrow> Inr v) \<and>
            (\<not> ARC_has now ca key None \<longrightarrow> res = Inl KeyNotFoundError) \<and>
            items c1 key = (if ARC_has now ca key None then items ca key else None) \<and>
            added_calls c1 = added_calls ca"
    using ga sa wa a(3,4) by blast
  show ?thesis using lru arc by (rule conjI)
qed

lemma arc_expiring_added_reached:
  "ARC_run panicking_sentinel_cfg newARC arc_expiring_run = Some arc_expiring_added"
  by (simp add: arc_expiring_run_def arc_expiring_added_def arc_expiring_def
      panicking_sentinel_cfg_def panicking_cfg_def expiring_item_def arc_eval_defs)

theorem loader_panic_becomes_error_witness:
  "loaderExpireFunc panicking_sentinel_cfg = Some (\<lambda>ctx k. LoaderPanics ''boom'') \<and>
   0 < cache_size panicking_sentinel_cfg \<and>
   ARC_run panicking_sentinel_cfg newARC arc_expiring_run = Some arc_expiring_added \<and>
   LRUCache_has 5 lru_expiring_added 1 None \<and> ARC_has 5 arc_expiring_added 1 None \<and>
   \<not> LRUCache_has 11 lru_expiring_added 1 None \<and> \<not> ARC_has 11 arc_expiring_added 1 None \<and>
   (\<exists>c1. LRUCache_GetWithContext panicking_sentinel_cfg 5 5 lru_expiring_added () 1 =
            Some (c1, Inl (Errorf ''loader panics: boom'')) \<and>
          LRUCache_items c1 1 = Some expiring_item \<and> lru_added_calls c1 = [(1, ''a'')]) \<and>
   (\<exists>c1. ARC_GetWithContext panicking_sentinel_cfg 5 5 arc_expiring_added () 1 =
            Some (c1, Inl (Errorf ''loader panics: boom'')) \<and>
          items c1 1 = Some expiring_item \<and> added_calls c1 = [(1, ''a'')]) \<and>
   (\<exists>c1. LRUCache_GetWithContext panicking_sentinel_cfg 11 11 lru_expiring_added () 1 =
            Some (c1, Inl (Errorf ''loader panics: boom'')) \<and>
          LRUCache_items c1 1 = None \<and> lru_added_calls c1 = [(1, ''a'')]) \<and>
   (\<exists>c1. ARC_GetWithContext panicking_sentinel_cfg 11 11 arc_expiring_added () 1 =
            Some (c1, Inl (Errorf ''loader panics: boom'')) \<and>
          items c1 1 = None \<and> added_calls c1 = [(1, ''a'')])"
proof -
  have h1: "loaderExpireFunc panicking_sentinel_cfg = Some (\<lambda>ctx k. LoaderPanics ''boom'')"
    by (simp add: panicking_sentinel_cfg_def panicking_cfg_def)
  have h3: "0 < cache_size panicking_sentinel_cfg"
    by (simp add: panicking_sentinel_cfg_def panicking_cfg_def)
  have h4: "ARC_run panicking_sentinel_cfg newARC arc_expiring_run = Some arc_expiring_added"
    by (rule arc_expiring_added_reached)
  have l5: "LRUCache_items lru_expiring_added 1 = Some expiring_item"
    "lru_added_calls lru_expiring_added = [(1, ''a'')]"
    "LRUCache_has 5 lru_expiring_added 1 None" "\<not> LRUCache_has 11 lru_expiring_added 1 None"
    by (simp_all add: LRUCache_has_def LRUCache_items_def lru_expiring_added_def lru_expiring_def
        expiring_item_def IsExpired_def)
  have a5: "items arc_expiring_added 1 = Some expiring_item"
    "added_calls arc_expiring_added = [(1, ''a'')]"
    "ARC_has 5 arc_expiring_added 1 None" "\<not> ARC_has 11 arc_expiring_added 1 None"
    by (simp_all add: ARC_has_def arc_expiring_added_def arc_expiring_def expiring_item_def
        IsExpired_def)
  have g5: "snd (LRUCache_get panicking_sentinel_cfg 5 lru_expiring_added 1 False) =
              Inl KeyNotFoundError"
    "map_option snd (ARC_get panicking_sentinel_cfg 5 arc_expiring_added 1 False) =
       Some (Inl KeyNotFoundError)"
    by (simp_all add: panicking_sentinel_cfg_def panicking_cfg_def lru_expiring_added_def
        lru_expiring_def arc_expiring_added_def arc_expiring_def expiring_item_def
        LRUCache_get_def LRUCache_getValue_def LRUCache_items_def IsExpired_def
        LRUCache_count_hit_def ARC_get_def ARC_getValue_def getValue_t1_def arcList_Has_def
        ARC_count_hit_def arcList_Remove_def arcList_PushFront_def)
  note th = loader_panic_becomes_error[where f="\<lambda>ctx k. LoaderPanics ''boom''" and ctx="()"
      and key="1::nat" and r="''boom''" and cl=lru_expiring_added, OF h1 refl h3 h4]
  note th5 = th[where now=5 and now'=5]
  note th11 = th[where now=11 and now'=11]
  have r1: "\<exists>c1. LRUCache_GetWithContext panicking_sentinel_cfg 5 5 lru_expiring_added () 1 =
            Some (c1, Inl (Errorf ''loader panics: boom'')) \<and>
          LRUCache_items c1 1 = Some expiring_item \<and> lru_added_calls c1 = [(1, ''a'')]"
    using th5 g5(1) l5 by auto
  have r2: "\<exists>c1. ARC_GetWithContext panicking_sentinel_cfg 5 5 arc_expiring_added () 1 =
            Some (c1, Inl (Errorf ''loader panics: boom'')) \<and>
          items c1 1 = Some expiring_item \<and> added_calls c1 = [(1, ''a'')]"
    using th5 g5(2) a5 by auto
  have r3: "\<exists>c1. LRUCache_GetWithContext panicking_sentinel_cfg 11 11 lru_expiring_added () 1 =
            Some (c1, Inl (Errorf ''loader panics: boom'')) \<and>
          LRUCache_items c1 1 = None \<and> lru_added_calls c1 = [(1, ''a'')]"
    using th11 l5 by auto
  have r4: "\<exists>c1. ARC_GetWithContext panicking_sentinel_cfg 11 11 arc_expiring_added () 1 =
            Some (c1, Inl (Errorf ''loader panics: boom'')) \<and>
          items c1 1 = None \<and> added_calls c1 = [(1, ''a'')]"
    using th11 a5 by auto
  show ?thesis using h1 h3 h4 l5(3,4) a5(3,4) r1 r2 r3 r4 by (intro conjI)
qed

end
